theory Spec2Isabelle
  imports Complex_Main "HOL-Library.Multiset"
begin

section \<open>Image metrics and visualisation helpers of refnerf-pl\<close>

text \<open>
  The development embeds the numeric helpers of \<^verbatim>\<open>internal/image.py\<close> and
  \<^verbatim>\<open>internal/vis.py\<close>. Tensor elements are modelled as real numbers: rounding,
  infinities and NaN of the float32 arithmetic are outside the model. Where the float
  arithmetic of the source gives a defined result that real arithmetic in HOL would
  hide (division by zero, an empty tensor, an index out of range), the model writes the
  source's behaviour out.
\<close>

subsection \<open>Colour space conversion (\<^verbatim>\<open>image.py\<close>)\<close>

text \<open>\<^verbatim>\<open>torch.finfo(torch.float32).eps\<close>, the default of the \<^verbatim>\<open>eps\<close> arguments.\<close>

definition float32_eps :: real where
  "float32_eps = 1 / 2 ^ 23"

text \<open>\<^verbatim>\<open>if eps is None: eps = xnp.tensor(xnp.finfo(xnp.float32).eps)\<close>\<close>

definition eps_or_default :: "real option \<Rightarrow> real" where
  "eps_or_default eps = (case eps of None \<Rightarrow> float32_eps | Some e \<Rightarrow> e)"

text \<open>
  \<^verbatim>\<open>linear_to_srgb\<close> on one element; the source applies it elementwise. The base of the
  power is at least \<open>eps\<close>, so for a positive \<open>eps\<close> the power is \<open>powr\<close>. (For an
  \<open>eps\<close> that is not positive and a negative base torch gives NaN; no statement below
  is about that case.)
\<close>

definition linear_to_srgb :: "real \<Rightarrow> real option \<Rightarrow> real" where
  "linear_to_srgb lin eps =
     (let e = eps_or_default eps;
          srgb0 = 323 / 25 * lin;
          srgb1 = (211 * (max e lin) powr (5 / 12) - 11) / 200
      in if lin \<le> 31308 / 10000000 then srgb0 else srgb1)"

definition srgb_to_linear :: "real \<Rightarrow> real option \<Rightarrow> real" where
  "srgb_to_linear srgb eps =
     (let e = eps_or_default eps;
          linear0 = 25 / 323 * srgb;
          linear1 = (max e ((200 * srgb + 11) / 211)) powr (12 / 5)
      in if srgb \<le> 4045 / 100000 then linear0 else linear1)"

text \<open>
  The upper end of the interval of linear values just above the threshold \<open>0.0031308\<close>
  whose sRGB image is still at most \<open>0.04045\<close>: the two branch thresholds of the
  source do not map onto each other exactly.
\<close>

definition linear_gap_hi :: real where
  "linear_gap_hi = (1909 / 21100) powr (12 / 5)"

subsection \<open>Tensors and errors\<close>

text \<open>
  A tensor is its shape and its elements in row-major order, as \<^verbatim>\<open>reshape\<close> sees it.
  Every tensor of the source satisfies \<open>wf_tensor\<close>.
\<close>

record tensor =
  shape :: "nat list"
  data :: "real list"

definition wf_tensor :: "tensor \<Rightarrow> bool" where
  "wf_tensor t \<longleftrightarrow> length (data t) = prod_list (shape t)"

text \<open>
  The exceptions of the source and of the torch calls it makes. \<open>ValueError\<close> is raised
  by the shape checks of \<^verbatim>\<open>color_correct\<close> and \<^verbatim>\<open>visualize_cmap\<close> (the specification
  calls it ShapeError), \<open>AssertionError\<close> by the finiteness assertion on a least-squares
  solution (NumericalError in the specification), \<open>IndexError\<close> by an index into an
  empty shape or an empty tensor, \<open>RuntimeError\<close> by torch on shapes that cannot be
  reshaped, stacked or broadcast and on an integer remainder by zero, \<open>TypeError\<close> by
  a call with an argument of the wrong type, \<open>AttributeError\<close> by the lookup of a name
  that the \<^verbatim>\<open>torch\<close> module does not have.
\<close>

datatype error =
  ValueError | AssertionError | IndexError | RuntimeError | TypeError | AttributeError

text \<open>\<^verbatim>\<open>t.reshape([-1, n])\<close> for \<open>n > 0\<close> dividing the number of elements: the rows.\<close>

definition rows_of :: "nat \<Rightarrow> real list \<Rightarrow> real list list" where
  "rows_of n xs = map (\<lambda>i. take n (drop (i * n) xs)) [0..<length xs div n]"

text \<open>\<^verbatim>\<open>m[:, c]\<close>\<close>

definition column :: "nat \<Rightarrow> real list list \<Rightarrow> real list" where
  "column c m = map (\<lambda>r. r ! c) m"

text \<open>\<^verbatim>\<open>torch.clip(x, lo, hi)\<close> on one element.\<close>

definition clip :: "real \<Rightarrow> real \<Rightarrow> real \<Rightarrow> real" where
  "clip x lo hi = min (max x lo) hi"

text \<open>
  The size of a dimension of two broadcast operands, \<open>None\<close> where torch raises; and
  the index read in an operand of size \<open>n\<close> for index \<open>i\<close> of the result.
\<close>

definition broadcast_dim :: "nat \<Rightarrow> nat \<Rightarrow> nat option" where
  "broadcast_dim a b =
     (if a = b then Some a else if a = 1 then Some b else if b = 1 then Some a else None)"

definition bidx :: "nat \<Rightarrow> nat \<Rightarrow> nat" where
  "bidx n i = (if n = 1 then 0 else i)"

subsection \<open>Colour correction (\<^verbatim>\<open>image.py\<close>, \<^verbatim>\<open>color_correct\<close>)\<close>

text \<open>\<^verbatim>\<open>is_unclipped = lambda z: (z >= eps) & (z <= (1 - eps))\<close>\<close>

definition is_unclipped :: "real \<Rightarrow> real \<Rightarrow> bool" where
  "is_unclipped eps z \<longleftrightarrow> z \<ge> eps \<and> z \<le> 1 - eps"

text \<open>
  One row of \<^verbatim>\<open>a_mat\<close>: for each channel \<open>c\<close> the products
  \<^verbatim>\<open>img_mat[:, c:(c + 1)] * img_mat[:, c:]\<close>, then the pixel itself, then the bias 1.
\<close>

definition feature_row :: "real list \<Rightarrow> real list" where
  "feature_row p =
     concat (map (\<lambda>c. map (\<lambda>x. p ! c * x) (drop c p)) [0..<length p]) @ p @ [1]"

text \<open>The number of columns of \<^verbatim>\<open>a_mat\<close> for \<open>C\<close> channels.\<close>

definition num_features :: "nat \<Rightarrow> nat" where
  "num_features C = sum_list (map (\<lambda>c. C - c) [0..<C]) + C + 1"

text \<open>One entry of \<^verbatim>\<open>torch.matmul(a_mat, warp)\<close>: a row of \<^verbatim>\<open>a_mat\<close> times a column of \<^verbatim>\<open>warp\<close>.\<close>

definition dot :: "real list \<Rightarrow> real list \<Rightarrow> real" where
  "dot xs ys = sum_list (map2 (*) xs ys)"

text \<open>
  \<^verbatim>\<open>torch.linalg.lstsq\<close> is a library call and a parameter of the model:
  \<open>lstsq A b\<close> is the solution vector, or \<open>None\<close> when some component of it is not
  finite, which the source turns into an \<open>AssertionError\<close>. What a least-squares solver
  promises is \<open>least_squares\<close>: a vector with one entry per column that minimises the sum
  of the squared residuals.
\<close>

type_synonym solver = "real list list \<Rightarrow> real list \<Rightarrow> real list option"

definition residual :: "real list list \<Rightarrow> real list \<Rightarrow> real list \<Rightarrow> real" where
  "residual A w b = sum_list (map2 (\<lambda>r y. (dot r w - y)\<^sup>2) A b)"

definition least_squares :: "real list list \<Rightarrow> real list \<Rightarrow> nat \<Rightarrow> real list \<Rightarrow> bool" where
  "least_squares A b F w \<longleftrightarrow>
     length w = F \<and> (\<forall>w'. length w' = F \<longrightarrow> residual A w b \<le> residual A w' b)"

text \<open>
  The body of the inner loop for channel \<open>c\<close>. The three masks are combined with
  broadcasting, so an \<^verbatim>\<open>img\<close> and a \<^verbatim>\<open>ref\<close> with different numbers of pixels raise
  unless one of them has exactly one pixel.
\<close>

definition solve_channel ::
  "solver \<Rightarrow> real \<Rightarrow> bool list list \<Rightarrow> real list list \<Rightarrow> real list list \<Rightarrow> real list list
     \<Rightarrow> nat \<Rightarrow> error + real list" where
  "solve_channel lstsq eps mask0 ref_mat img_mat a_mat c =
     (let b = column c ref_mat;
          N = length img_mat;
          M = length ref_mat
      in case broadcast_dim N M of
           None \<Rightarrow> Inl RuntimeError
         | Some n \<Rightarrow>
            (let mask = (\<lambda>i. mask0 ! bidx N i ! c
                             \<and> is_unclipped eps (img_mat ! bidx N i ! c)
                             \<and> is_unclipped eps (b ! bidx M i));
                 ma_mat = map (\<lambda>i. if mask i then a_mat ! bidx N i
                                     else map (\<lambda>_. 0) (a_mat ! bidx N i)) [0..<n];
                 mb = map (\<lambda>i. if mask i then b ! bidx M i else 0) [0..<n]
             in (case lstsq ma_mat mb of
                   None \<Rightarrow> Inl AssertionError
                 | Some w \<Rightarrow> Inr w)))"

text \<open>The loop \<^verbatim>\<open>for c in range(num_channels)\<close> that collects \<^verbatim>\<open>warp\<close>.\<close>

fun solve_channels ::
  "solver \<Rightarrow> real \<Rightarrow> bool list list \<Rightarrow> real list list \<Rightarrow> real list list \<Rightarrow> real list list
     \<Rightarrow> nat list \<Rightarrow> error + real list list" where
  "solve_channels lstsq eps mask0 ref_mat img_mat a_mat [] = Inr []"
| "solve_channels lstsq eps mask0 ref_mat img_mat a_mat (c # cs) =
     (case solve_channel lstsq eps mask0 ref_mat img_mat a_mat c of
        Inl e \<Rightarrow> Inl e
      | Inr w \<Rightarrow>
          (case solve_channels lstsq eps mask0 ref_mat img_mat a_mat cs of
             Inl e \<Rightarrow> Inl e
           | Inr ws \<Rightarrow> Inr (w # ws)))"

text \<open>One pass of the outer loop: build \<^verbatim>\<open>a_mat\<close>, solve per channel, apply the warp, clip.\<close>

definition color_correct_iter ::
  "solver \<Rightarrow> real \<Rightarrow> nat \<Rightarrow> bool list list \<Rightarrow> real list list \<Rightarrow> real list list
     \<Rightarrow> error + real list list" where
  "color_correct_iter lstsq eps num_channels mask0 ref_mat img_mat =
     (let a_mat = map feature_row img_mat
      in case solve_channels lstsq eps mask0 ref_mat img_mat a_mat [0..<num_channels] of
           Inl e \<Rightarrow> Inl e
         | Inr warp \<Rightarrow> Inr (map (\<lambda>r. map (\<lambda>w. clip (dot r w) 0 1) warp) a_mat))"

text \<open>\<^verbatim>\<open>for _ in range(num_iters)\<close>\<close>

fun color_correct_loop ::
  "nat \<Rightarrow> solver \<Rightarrow> real \<Rightarrow> nat \<Rightarrow> bool list list \<Rightarrow> real list list \<Rightarrow> real list list
     \<Rightarrow> error + real list list" where
  "color_correct_loop 0 lstsq eps num_channels mask0 ref_mat img_mat = Inr img_mat"
| "color_correct_loop (Suc k) lstsq eps num_channels mask0 ref_mat img_mat =
     (case color_correct_iter lstsq eps num_channels mask0 ref_mat img_mat of
        Inl e \<Rightarrow> Inl e
      | Inr img_mat' \<Rightarrow> color_correct_loop k lstsq eps num_channels mask0 ref_mat img_mat')"

text \<open>
  \<^verbatim>\<open>color_correct(img, ref, num_iters, eps)\<close>. \<^verbatim>\<open>shape[-1]\<close> of a tensor without
  dimensions raises \<open>IndexError\<close>; \<^verbatim>\<open>reshape([-1, 0])\<close> raises \<open>RuntimeError\<close>;
  \<^verbatim>\<open>range\<close> of a negative number is empty.
\<close>

definition color_correct :: "solver \<Rightarrow> tensor \<Rightarrow> tensor \<Rightarrow> int \<Rightarrow> real \<Rightarrow> error + tensor" where
  "color_correct lstsq img ref num_iters eps =
     (if shape img = [] \<or> shape ref = [] then Inl IndexError
      else if last (shape img) \<noteq> last (shape ref) then Inl ValueError
      else
        let num_channels = last (shape img)
        in if num_channels = 0 then Inl RuntimeError
           else
             let img_mat = rows_of num_channels (data img);
                 ref_mat = rows_of num_channels (data ref);
                 mask0 = map (map (is_unclipped eps)) img_mat
             in case color_correct_loop (nat num_iters) lstsq eps num_channels mask0 ref_mat
                       img_mat of
                  Inl e \<Rightarrow> Inl e
                | Inr m \<Rightarrow> Inr \<lparr>shape = shape img, data = concat m\<rparr>)"

text \<open>The default arguments \<^verbatim>\<open>num_iters=5, eps=0.5 / 255\<close>.\<close>

definition default_num_iters :: int where
  "default_num_iters = 5"

definition default_eps :: real where
  "default_eps = (5 / 10) / 255"

text \<open>
  A solver meets its contract on the system \<open>A w = b\<close> with \<open>F\<close> unknowns when it
  returns a finite least-squares solution of it.
\<close>

definition solves_least_squares :: "solver \<Rightarrow> real list list \<Rightarrow> real list \<Rightarrow> nat \<Rightarrow> bool" where
  "solves_least_squares lstsq A b F \<longleftrightarrow> (\<exists>w. lstsq A b = Some w \<and> least_squares A b F w)"

text \<open>
  The warp column that copies channel \<open>c\<close> of a pixel with \<open>C\<close> channels: zero on the
  quadratic terms and the bias, one on the linear term of \<open>c\<close>.
\<close>

definition unit_warp :: "nat \<Rightarrow> nat \<Rightarrow> real list" where
  "unit_warp C c =
     replicate (sum_list (map (\<lambda>c. C - c) [0..<C])) 0 @ (replicate C 0)[c := 1] @ [0]"

subsection \<open>Elementwise operations with broadcasting\<close>

text \<open>The \<open>i\<close>-th block of \<open>n\<close> consecutive elements.\<close>

definition block :: "nat \<Rightarrow> nat \<Rightarrow> real list \<Rightarrow> real list" where
  "block n i xs = take n (drop (i * n) xs)"

text \<open>Torch aligns shapes at their last dimension and fills the shorter with ones.\<close>

definition pad_shape :: "nat \<Rightarrow> nat list \<Rightarrow> nat list" where
  "pad_shape r s = replicate (r - length s) 1 @ s"

fun broadcast_shape :: "nat list \<Rightarrow> nat list \<Rightarrow> nat list option" where
  "broadcast_shape [] [] = Some []"
| "broadcast_shape (a # as) (b # bs) =
     (case broadcast_dim a b of
        None \<Rightarrow> None
      | Some n \<Rightarrow> (case broadcast_shape as bs of None \<Rightarrow> None | Some ns \<Rightarrow> Some (n # ns)))"
| "broadcast_shape _ _ = None"

text \<open>
  The elements of \<open>f x y\<close> for operands of shapes of equal rank that broadcast: along a
  dimension of size one the single block is read for every index.
\<close>

fun broadcast_data ::
  "(real \<Rightarrow> real \<Rightarrow> real) \<Rightarrow> nat list \<Rightarrow> real list \<Rightarrow> nat list \<Rightarrow> real list \<Rightarrow> real list" where
  "broadcast_data f [] xs [] ys = map2 f xs ys"
| "broadcast_data f (a # as) xs (b # bs) ys =
     concat (map (\<lambda>i. broadcast_data f as (block (prod_list as) (bidx a i) xs)
                                        bs (block (prod_list bs) (bidx b i) ys))
                 [0..<(if a = 1 then b else a)])"
| "broadcast_data f _ xs _ ys = []"

definition broadcast_op :: "(real \<Rightarrow> real \<Rightarrow> real) \<Rightarrow> tensor \<Rightarrow> tensor \<Rightarrow> error + tensor" where
  "broadcast_op f x y =
     (let r = max (length (shape x)) (length (shape y));
          sx = pad_shape r (shape x);
          sy = pad_shape r (shape y)
      in case broadcast_shape sx sy of
           None \<Rightarrow> Inl RuntimeError
         | Some s \<Rightarrow> Inr \<lparr>shape = s, data = broadcast_data f sx (data x) sy (data y)\<rparr>)"

text \<open>An operation with a Python number, such as \<^verbatim>\<open>1 - acc\<close>.\<close>

definition map_tensor :: "(real \<Rightarrow> real) \<Rightarrow> tensor \<Rightarrow> tensor" where
  "map_tensor f t = \<lparr>shape = shape t, data = map f (data t)\<rparr>"

text \<open>
  Indexing with \<^verbatim>\<open>None\<close> after \<open>k\<close> full slices, as in \<^verbatim>\<open>acc[:, :, None]\<close>: a new
  dimension of size one at position \<open>k\<close>. The caller checks that the rank is at least \<open>k\<close>.
\<close>

definition unsqueeze :: "nat \<Rightarrow> tensor \<Rightarrow> tensor" where
  "unsqueeze k t = \<lparr>shape = take k (shape t) @ [1] @ drop k (shape t), data = data t\<rparr>"

text \<open>Element \<open>[r, c]\<close> of a matrix and element \<open>[r, c, k]\<close> of an image.\<close>

definition at2 :: "tensor \<Rightarrow> nat \<Rightarrow> nat \<Rightarrow> real" where
  "at2 t r c = data t ! (r * (shape t ! 1) + c)"

definition at3 :: "tensor \<Rightarrow> nat \<Rightarrow> nat \<Rightarrow> nat \<Rightarrow> real" where
  "at3 t r c k = data t ! ((r * (shape t ! 1) + c) * (shape t ! 2) + k)"

subsection \<open>Matting (\<^verbatim>\<open>vis.py\<close>, \<^verbatim>\<open>matte\<close>)\<close>

text \<open>
  Entry \<open>i\<close> of \<^verbatim>\<open>torch.arange(n) % (2 * width) // width\<close>; the remainder and the
  floor division of torch on integers are those of \<open>int\<close> in HOL.
\<close>

definition checker_index :: "nat \<Rightarrow> int \<Rightarrow> int" where
  "checker_index i width = (int i mod (2 * width)) div width"

text \<open>
  Entry \<open>[r, c]\<close> of \<^verbatim>\<open>bg = torch.where(bg_mask, light, dark)\<close>, where \<^verbatim>\<open>bg_mask\<close> is
  the \<^verbatim>\<open>logical_xor\<close> of the row and column entries (non-zero counts as true).
\<close>

definition checker :: "real \<Rightarrow> real \<Rightarrow> int \<Rightarrow> nat \<Rightarrow> nat \<Rightarrow> real" where
  "checker dark light width r c =
     (if (checker_index r width \<noteq> 0) \<noteq> (checker_index c width \<noteq> 0) then light else dark)"

text \<open>
  \<^verbatim>\<open>matte(vis, acc, dark, light, width)\<close>. \<^verbatim>\<open>acc.shape[1]\<close> raises \<open>IndexError\<close> for
  an \<^verbatim>\<open>acc\<close> of rank below two, and the integer remainder raises for \<open>width = 0\<close>
  unless both ranges are empty.
\<close>

definition matte :: "tensor \<Rightarrow> tensor \<Rightarrow> real \<Rightarrow> real \<Rightarrow> int \<Rightarrow> error + tensor" where
  "matte vis acc dark light width =
     (if length (shape acc) < 2 then Inl IndexError
      else
        let H = shape acc ! 0;
            W = shape acc ! 1
        in if width = 0 \<and> (0 < H \<or> 0 < W) then Inl RuntimeError
           else
             let bg = \<lparr>shape = [H, W],
                       data = concat (map (\<lambda>r. map (\<lambda>c. checker dark light width r c) [0..<W])
                                          [0..<H])\<rparr>
             in case broadcast_op (*) vis (unsqueeze 2 acc) of
                  Inl e \<Rightarrow> Inl e
                | Inr fg \<Rightarrow>
                    (case broadcast_op (*) bg (map_tensor (\<lambda>a. 1 - a) acc) of
                       Inl e \<Rightarrow> Inl e
                     | Inr back \<Rightarrow> broadcast_op (+) fg (unsqueeze 2 back)))"

text \<open>The default arguments \<^verbatim>\<open>dark=0.8, light=1.0, width=8\<close>.\<close>

definition default_dark :: real where
  "default_dark = 8 / 10"

definition default_light :: real where
  "default_light = 1"

definition default_width :: int where
  "default_width = 8"

subsection \<open>Weighted percentiles (\<^verbatim>\<open>vis.py\<close>, \<^verbatim>\<open>weighted_percentile\<close>)\<close>

text \<open>
  \<^verbatim>\<open>torch.argsort(x)\<close>: the indices that sort \<open>x\<close> in ascending order. Torch leaves
  the order of equal elements open; the model takes the stable order.
\<close>

definition argsort :: "real list \<Rightarrow> nat list" where
  "argsort xs = map snd (sort_key fst (zip xs [0..<length xs]))"

text \<open>
  The branch \<^verbatim>\<open>if not assume_sorted\<close>:
  \<^verbatim>\<open>x[sortidx], weight[torch.remainder(sortidx, len(weight))]\<close>. The integer remainder
  by \<^verbatim>\<open>len(weight) = 0\<close> raises unless \<^verbatim>\<open>sortidx\<close> is empty.
\<close>

definition sort_with_weights :: "real list \<Rightarrow> real list \<Rightarrow> error + real list \<times> real list" where
  "sort_with_weights x weight =
     (let sortidx = argsort x
      in if sortidx \<noteq> [] \<and> length weight = 0 then Inl RuntimeError
         else Inr (map (\<lambda>i. x ! i) sortidx,
                   map (\<lambda>i. weight ! (i mod length weight)) sortidx))"

text \<open>\<^verbatim>\<open>torch.cumsum(weight, dim=0)\<close> of a vector.\<close>

fun cumsum_from :: "real \<Rightarrow> real list \<Rightarrow> real list" where
  "cumsum_from a [] = []"
| "cumsum_from a (x # xs) = (a + x) # cumsum_from (a + x) xs"

definition cumsum :: "real list \<Rightarrow> real list" where
  "cumsum xs = cumsum_from 0 xs"

text \<open>
  Modelled from the spec: \<^verbatim>\<open>math.interp\<close> lives in \<^verbatim>\<open>internal/math.py\<close>, which is not
  among the sources. The specification describes it as linear interpolation of the
  query against the curve through the points \<open>(xp, fp)\<close>, monotone in \<open>xp\<close>, clamped to the
  end points outside \<open>[xp[0], xp[N-1]]\<close>. \<open>interp_between\<close> walks the segments of the
  curve for a query above the first knot; a query on a knot takes the value of the
  last knot not above it, and a query beyond the last knot the last value.
\<close>

fun interp_between :: "real \<Rightarrow> (real \<times> real) list \<Rightarrow> real" where
  "interp_between t [] = 0"
| "interp_between t [(x0, y0)] = y0"
| "interp_between t ((x0, y0) # (x1, y1) # ps) =
     (if t < x1 then y0 + (t - x0) / (x1 - x0) * (y1 - y0)
      else interp_between t ((x1, y1) # ps))"

text \<open>
  Modelled from the spec: the interpolation of one query, clamped to the first value at
  and below the first knot.
\<close>

definition interp1 :: "real \<Rightarrow> real list \<Rightarrow> real list \<Rightarrow> real" where
  "interp1 t xp fp = (if t \<le> hd xp then hd fp else interp_between t (zip xp fp))"

text \<open>
  Modelled from the spec: \<^verbatim>\<open>math.interp(x, xp, fp)\<close>, one value for every query. The
  specification only speaks of curves with equally many, and at least one, \<open>xp\<close> and
  \<open>fp\<close>; for other arguments the model raises \<open>ValueError\<close>.
\<close>

definition interp :: "real list \<Rightarrow> real list \<Rightarrow> real list \<Rightarrow> error + real list" where
  "interp x xp fp =
     (if xp = [] \<or> length xp \<noteq> length fp then Inl ValueError
      else Inr (map (\<lambda>t. interp1 t xp fp) x))"

text \<open>
  \<^verbatim>\<open>weighted_percentile(x, weight, ps, assume_sorted)\<close>. Both tensors are flattened;
  \<^verbatim>\<open>acc_w[-1]\<close> raises \<open>IndexError\<close> on an empty cumulative sum.
\<close>

definition weighted_percentile ::
  "tensor \<Rightarrow> tensor \<Rightarrow> real list \<Rightarrow> bool \<Rightarrow> error + real list" where
  "weighted_percentile x weight ps assume_sorted =
     (case (if assume_sorted then Inr (data x, data weight)
            else sort_with_weights (data x) (data weight)) of
        Inl e \<Rightarrow> Inl e
      | Inr (xs, ws) \<Rightarrow>
          (let acc_w = cumsum ws
           in if acc_w = [] then Inl IndexError
              else interp (map (\<lambda>p. p * last acc_w / 100) ps) acc_w xs))"

subsection \<open>Colormap visualisation (\<^verbatim>\<open>vis.py\<close>, \<^verbatim>\<open>visualize_cmap\<close>)\<close>

text \<open>
  \<^verbatim>\<open>lo or (lo_auto - eps)\<close>: Python's \<^verbatim>\<open>or\<close> takes its second operand when the first
  is false, and both \<^verbatim>\<open>None\<close> and a zero (a number or a one-element tensor) are false.
  A bound is \<open>None\<close> when the caller passes nothing and a one-element tensor otherwise,
  as \<^verbatim>\<open>visualize_suite\<close> passes it (\<^verbatim>\<open>torch.min(lo, hi)\<close> takes tensors).
\<close>

definition py_or :: "real option \<Rightarrow> real \<Rightarrow> real" where
  "py_or v d = (case v of None \<Rightarrow> d | Some a \<Rightarrow> if a = 0 then d else a)"

text \<open>\<^verbatim>\<open>if modulus:\<close>, false for \<^verbatim>\<open>None\<close> and for zero.\<close>

definition truthy :: "real option \<Rightarrow> bool" where
  "truthy v = (case v of None \<Rightarrow> False | Some a \<Rightarrow> a \<noteq> 0)"

text \<open>
  \<^verbatim>\<open>torch.mod(value, modulus) / modulus\<close>, the wrap of the values. The \<^verbatim>\<open>torch\<close> module
  has the remainders \<^verbatim>\<open>torch.remainder\<close> (which \<^verbatim>\<open>weighted_percentile\<close> calls) and
  \<^verbatim>\<open>torch.fmod\<close> and no attribute \<^verbatim>\<open>mod\<close>: the lookup raises \<open>AttributeError\<close> before
  any argument is looked at.
\<close>

definition wrap_values :: "tensor \<Rightarrow> real \<Rightarrow> error + tensor" where
  "wrap_values value modulus = Inl AttributeError"

text \<open>
  \<^verbatim>\<open>nan_to_num(clip((value - min(lo, hi)) / abs(hi - lo), 0, 1))\<close> on one element.
  For \<open>hi = lo\<close> the float division gives an infinity, which the clip turns into 1 or 0,
  or NaN, which \<^verbatim>\<open>nan_to_num\<close> turns into 0.
\<close>

definition rescale :: "real \<Rightarrow> real \<Rightarrow> real \<Rightarrow> real" where
  "rescale lo hi v =
     (let n = v - min lo hi;
          d = \<bar>hi - lo\<bar>
      in if d = 0 then (if 0 < n then 1 else 0) else clip (n / d) 0 1)"

text \<open>
  A colormap sends a number to an RGBA colour; \<^verbatim>\<open>colormap(value)\<close> appends a dimension
  of size 4 and \<^verbatim>\<open>[:, :, :3]\<close> keeps the first three entries of dimension 2, which needs
  a \<^verbatim>\<open>value\<close> of rank at least two.
\<close>

type_synonym rgba = "real \<times> real \<times> real \<times> real"

definition apply_colormap :: "(real \<Rightarrow> rgba) \<Rightarrow> tensor \<Rightarrow> tensor" where
  "apply_colormap cm t =
     \<lparr>shape = shape t @ [4],
      data = concat (map (\<lambda>v. case cm v of (r, g, b, a) \<Rightarrow> [r, g, b, a]) (data t))\<rparr>"

definition slice_dim2 :: "nat \<Rightarrow> tensor \<Rightarrow> tensor" where
  "slice_dim2 n t =
     (let s = shape t;
          inner = prod_list (drop 3 s);
          kept = min n (s ! 2)
      in \<lparr>shape = s[2 := kept],
          data = concat (map (\<lambda>i. take (kept * inner) (block (s ! 2 * inner) i (data t)))
                             [0..<s ! 0 * s ! 1])\<rparr>)"

text \<open>
  The step from the normalised value to the colour image. Without a colormap the value
  must have three dimensions, else \<open>ValueError\<close>; when its last dimension is not 3, the
  message of the intended \<open>ValueError\<close> calls \<^verbatim>\<open>len\<close> on an integer, which raises
  \<open>TypeError\<close>.
\<close>

definition colorize :: "(real \<Rightarrow> rgba) option \<Rightarrow> tensor \<Rightarrow> error + tensor" where
  "colorize colormap value =
     (case colormap of
        Some cm \<Rightarrow>
          if length (shape value) < 2 then Inl IndexError
          else Inr (slice_dim2 3 (apply_colormap cm value))
      | None \<Rightarrow>
          if length (shape value) \<noteq> 3 then Inl ValueError
          else if last (shape value) \<noteq> 3 then Inl TypeError
          else Inr value)"

text \<open>
  \<^verbatim>\<open>visualize_cmap\<close>. The curve function is applied elementwise; the two automatic
  bounds are unpacked from the result of \<^verbatim>\<open>weighted_percentile\<close>.
\<close>

definition visualize_cmap ::
  "tensor \<Rightarrow> tensor \<Rightarrow> (real \<Rightarrow> rgba) option \<Rightarrow> real option \<Rightarrow> real option \<Rightarrow> real
     \<Rightarrow> (real \<Rightarrow> real) \<Rightarrow> real option \<Rightarrow> bool \<Rightarrow> error + tensor" where
  "visualize_cmap value weight colormap lo hi percentile curve_fn modulus matte_background =
     (case weighted_percentile value weight [50 - percentile / 2, 50 + percentile / 2] False of
        Inl e \<Rightarrow> Inl e
      | Inr bounds \<Rightarrow>
          (case bounds of
             [lo_auto, hi_auto] \<Rightarrow>
               (let eps = float32_eps;
                    lo1 = py_or lo (lo_auto - eps);
                    hi1 = py_or hi (hi_auto + eps);
                    value1 = map_tensor curve_fn value;
                    lo2 = curve_fn lo1;
                    hi2 = curve_fn hi1;
                    wrapped = (if truthy modulus
                               then wrap_values value1 (the modulus)
                               else Inr (map_tensor (rescale lo2 hi2) value1))
                in case wrapped of
                     Inl e \<Rightarrow> Inl e
                   | Inr value2 \<Rightarrow>
                       (case colorize colormap value2 of
                          Inl e \<Rightarrow> Inl e
                        | Inr colorized \<Rightarrow>
                            if matte_background
                            then matte colorized weight default_dark default_light
                                   default_width
                            else Inr colorized))
           | _ \<Rightarrow> Inl ValueError))"

text \<open>The default arguments \<^verbatim>\<open>percentile=99., curve_fn=lambda x: x\<close>.\<close>

definition default_percentile :: real where
  "default_percentile = 99"

definition identity_curve :: "real \<Rightarrow> real" where
  "identity_curve x = x"

subsection \<open>Ray visualisation (\<^verbatim>\<open>vis.py\<close>, \<^verbatim>\<open>visualize_rays\<close>)\<close>

text \<open>
  \<^verbatim>\<open>torch.linspace(start, end, steps)\<close>; a negative number of steps raises, one step
  gives the start.
\<close>

definition linspace :: "real \<Rightarrow> real \<Rightarrow> int \<Rightarrow> error + real list" where
  "linspace a b steps =
     (if steps < 0 then Inl RuntimeError
      else Inr (map (\<lambda>i. if steps = 1 then a
                           else a + (b - a) * real i / real_of_int (steps - 1))
                    [0..<nat steps]))"

text \<open>
  Iterating over a tensor yields its slices along the first dimension; a tensor without
  dimensions cannot be iterated (\<open>TypeError\<close>).
\<close>

definition tensor_rows :: "tensor \<Rightarrow> error + tensor list" where
  "tensor_rows t =
     (case shape t of
        [] \<Rightarrow> Inl TypeError
      | n # rest \<Rightarrow>
          Inr (map (\<lambda>i. \<lparr>shape = rest, data = block (prod_list rest) i (data t)\<rparr>) [0..<n]))"

text \<open>\<^verbatim>\<open>torch.cumsum(t, dim=0)\<close>: slice \<open>i\<close> of the result is the sum of the slices up to \<open>i\<close>.\<close>

definition cumsum0 :: "tensor \<Rightarrow> tensor" where
  "cumsum0 t =
     (case shape t of
        [] \<Rightarrow> t
      | n # rest \<Rightarrow>
          \<lparr>shape = shape t,
           data = concat (map (\<lambda>i. foldl (map2 (+)) (block (prod_list rest) 0 (data t))
                                        (map (\<lambda>j. block (prod_list rest) j (data t))
                                             [1..<Suc i]))
                              [0..<n])\<rparr>)"

text \<open>
  The branch \<^verbatim>\<open>if accumulate\<close> for one ray. \<^verbatim>\<open>w[:, None]\<close> needs a \<open>w\<close> with at least
  one dimension. A denominator \<open>w_csum + 2 * eps\<close> that is exactly zero gives an infinity
  or NaN in the source; the real division of the model gives 0 there.
\<close>

definition accumulate_ray :: "tensor \<Rightarrow> tensor \<Rightarrow> error + tensor \<times> tensor" where
  "accumulate_ray r w =
     (let w_csum = cumsum0 w
      in if shape w = [] then Inl IndexError
         else case broadcast_op (*) r (unsqueeze 1 w) of
                Inl e \<Rightarrow> Inl e
              | Inr rw \<Rightarrow>
                  (case broadcast_op (/)
                          (map_tensor (\<lambda>x. x + float32_eps) (cumsum0 rw))
                          (map_tensor (\<lambda>x. x + 2 * float32_eps) (unsqueeze 1 w_csum)) of
                     Inl e \<Rightarrow> Inl e
                   | Inr r' \<Rightarrow> Inr (r', w_csum)))"

text \<open>
  \<^verbatim>\<open>t.T\<close> reverses the dimensions. \<open>all_indices\<close> lists the index tuples of a shape in
  row-major order and \<open>ravel\<close> is the position of an index tuple in the data.
\<close>

fun all_indices :: "nat list \<Rightarrow> nat list list" where
  "all_indices [] = [[]]"
| "all_indices (n # ns) = concat (map (\<lambda>i. map ((#) i) (all_indices ns)) [0..<n])"

fun ravel :: "nat list \<Rightarrow> nat list \<Rightarrow> nat" where
  "ravel (n # ns) (i # is) = i * prod_list ns + ravel ns is"
| "ravel _ _ = 0"

definition transpose_T :: "tensor \<Rightarrow> tensor" where
  "transpose_T t =
     \<lparr>shape = rev (shape t),
      data = map (\<lambda>idx. data t ! ravel (shape t) (rev idx)) (all_indices (rev (shape t)))\<rparr>"

text \<open>
  \<^verbatim>\<open>stepfun.resample\<close> lives in \<^verbatim>\<open>internal/stepfun.py\<close>, which is not among the
  sources; it is a parameter of the model: \<open>resample t tp vp\<close> stands for
  \<^verbatim>\<open>stepfun.resample(t, tp, vp, use_avg=True)\<close> and may raise.
\<close>

type_synonym resampler = "real list \<Rightarrow> tensor \<Rightarrow> tensor \<Rightarrow> error + tensor"

text \<open>The body of the inner loop: one ray \<open>(d, w, r)\<close> gives \<open>(vis_r, vis_w)\<close>.\<close>

definition resample_ray ::
  "resampler \<Rightarrow> bool \<Rightarrow> real list \<Rightarrow> tensor \<Rightarrow> tensor \<Rightarrow> tensor \<Rightarrow> error + tensor \<times> tensor" where
  "resample_ray resample accumulate dist_vis d w r =
     (case (if accumulate then accumulate_ray r w else Inr (r, w)) of
        Inl e \<Rightarrow> Inl e
      | Inr (r1, w1) \<Rightarrow>
          (case resample dist_vis d (transpose_T r1) of
             Inl e \<Rightarrow> Inl e
           | Inr vr \<Rightarrow>
               (case resample dist_vis d (transpose_T w1) of
                  Inl e \<Rightarrow> Inl e
                | Inr vw \<Rightarrow> Inr (transpose_T vr, transpose_T vw))))"

text \<open>The inner loop \<^verbatim>\<open>for d, w, r in zip(ds, ws, rs)\<close> over the rays of one level.\<close>

fun resample_rays ::
  "resampler \<Rightarrow> bool \<Rightarrow> real list \<Rightarrow> (tensor \<times> tensor \<times> tensor) list
     \<Rightarrow> error + (tensor \<times> tensor) list" where
  "resample_rays resample accumulate dist_vis [] = Inr []"
| "resample_rays resample accumulate dist_vis ((d, w, r) # rays) =
     (case resample_ray resample accumulate dist_vis d w r of
        Inl e \<Rightarrow> Inl e
      | Inr v \<Rightarrow>
          (case resample_rays resample accumulate dist_vis rays of
             Inl e \<Rightarrow> Inl e
           | Inr vs \<Rightarrow> Inr (v # vs)))"

text \<open>
  \<^verbatim>\<open>zip(ds, ws, rs)\<close> for the three tensors of one level, and the rays it yields after
  resampling.
\<close>

definition level_rays ::
  "resampler \<Rightarrow> bool \<Rightarrow> real list \<Rightarrow> tensor \<times> tensor \<times> tensor
     \<Rightarrow> error + (tensor \<times> tensor) list" where
  "level_rays resample accumulate dist_vis lvl =
     (case lvl of (ds, ws, rs) \<Rightarrow>
        (case tensor_rows ds of
           Inl e \<Rightarrow> Inl e
         | Inr drows \<Rightarrow>
             (case tensor_rows ws of
                Inl e \<Rightarrow> Inl e
              | Inr wrows \<Rightarrow>
                  (case tensor_rows rs of
                     Inl e \<Rightarrow> Inl e
                   | Inr rrows \<Rightarrow>
                       resample_rays resample accumulate dist_vis
                         (zip drows (zip wrows rrows))))))"

text \<open>
  \<^verbatim>\<open>torch.stack(ts)\<close> along a new first dimension, and \<^verbatim>\<open>torch.stack(ts, dim=1)\<close>
  along a new second one. Both raise on an empty list and on tensors of different
  shapes; the second needs tensors with at least one dimension.
\<close>

definition stack0 :: "tensor list \<Rightarrow> error + tensor" where
  "stack0 ts =
     (case ts of
        [] \<Rightarrow> Inl RuntimeError
      | t # us \<Rightarrow>
          if \<forall>u \<in> set us. shape u = shape t
          then Inr \<lparr>shape = length ts # shape t, data = concat (map data ts)\<rparr>
          else Inl RuntimeError)"

definition stack1 :: "tensor list \<Rightarrow> error + tensor" where
  "stack1 ts =
     (case ts of
        [] \<Rightarrow> Inl RuntimeError
      | t # us \<Rightarrow>
          if \<exists>u \<in> set us. shape u \<noteq> shape t then Inl RuntimeError
          else (case shape t of
                  [] \<Rightarrow> Inl IndexError
                | n # rest \<Rightarrow>
                    Inr \<lparr>shape = n # length ts # rest,
                         data = concat (map (\<lambda>k. concat (map (\<lambda>u. block (prod_list rest) k
                                                                    (data u)) ts))
                                            [0..<n])\<rparr>))"

text \<open>
  The branch \<^verbatim>\<open>if renormalize\<close>: \<^verbatim>\<open>torch.max(vis_alpha)\<close> raises on an empty tensor,
  and \<^verbatim>\<open>torch.max(eps, ...)\<close> with the Python number \<^verbatim>\<open>eps\<close> in the place of the input
  tensor is a \<open>TypeError\<close>, so that no call with \<^verbatim>\<open>renormalize\<close> returns.
\<close>

definition renormalize_alpha :: "bool \<Rightarrow> tensor \<Rightarrow> error + tensor" where
  "renormalize_alpha renormalize vis_alpha =
     (if renormalize
      then (if data vis_alpha = [] then Inl RuntimeError else Inl TypeError)
      else Inr vis_alpha)"

text \<open>
  \<^verbatim>\<open>torch.tile(t, dims)\<close>: the shape and \<open>dims\<close> are aligned at the last dimension
  and filled with ones in front; every dimension is repeated as often as \<open>dims\<close> says.
\<close>

fun tile_data :: "nat list \<Rightarrow> nat list \<Rightarrow> real list \<Rightarrow> real list" where
  "tile_data (n # s) (q # qs) xs =
     concat (replicate q (concat (map (\<lambda>i. tile_data s qs (block (prod_list s) i xs)) [0..<n])))"
| "tile_data _ _ xs = xs"

definition tile_tensor :: "nat list \<Rightarrow> tensor \<Rightarrow> tensor" where
  "tile_tensor dims t =
     (let r = max (length (shape t)) (length dims);
          s = pad_shape r (shape t);
          q = pad_shape r dims
      in \<lparr>shape = map2 (*) s q, data = tile_data s q (data t)\<rparr>)"

text \<open>
  \<^verbatim>\<open>t.reshape((-1,) + rest)\<close>: the first dimension is what the number of elements
  leaves; torch raises when it is not determined or not a whole number.
\<close>

definition reshape_infer :: "nat list \<Rightarrow> tensor \<Rightarrow> error + tensor" where
  "reshape_infer rest t =
     (let numel = prod_list (shape t);
          P = prod_list rest
      in if P = 0 \<or> numel mod P \<noteq> 0 then Inl RuntimeError
         else Inr \<lparr>shape = (numel div P) # rest, data = data t\<rparr>)"

text \<open>
  \<^verbatim>\<open>torch.cat([t, torch.zeros_like(t[:, :1])], dim=1)\<close> for a tensor with at least two
  dimensions: a slice of zeros after every slice along the first dimension.
\<close>

definition cat_zero_row :: "tensor \<Rightarrow> tensor" where
  "cat_zero_row t =
     (let a = shape t ! 0;
          b = shape t ! 1;
          rest = drop 2 (shape t);
          P = prod_list rest
      in \<lparr>shape = a # (b + min 1 b) # rest,
          data = concat (map (\<lambda>i. block (b * P) i (data t) @ replicate (min 1 b * P) 0)
                             [0..<a])\<rparr>)"

text \<open>
  The tiling branch for one of the two arrays: tile, flatten the first two dimensions,
  group \<open>stride\<close> rows, append a row of zeros to every group, flatten again.
\<close>

definition tile_pad :: "nat list \<Rightarrow> nat \<Rightarrow> tensor \<Rightarrow> error + tensor" where
  "tile_pad dims stride t =
     (case reshape_infer (drop 2 (shape t)) (tile_tensor dims t) of
        Inl e \<Rightarrow> Inl e
      | Inr t1 \<Rightarrow>
          (case reshape_infer (stride # tl (shape t1)) t1 of
             Inl e \<Rightarrow> Inl e
           | Inr t2 \<Rightarrow> reshape_infer (drop 2 (shape t2)) (cat_zero_row t2)))"

text \<open>
  \<^verbatim>\<open>vis_rgb * vis_alpha[..., None] + (bg_color * (1 - vis_alpha))[..., None]\<close>
\<close>

definition composite :: "real \<Rightarrow> tensor \<Rightarrow> tensor \<Rightarrow> error + tensor" where
  "composite bg_color vis_rgb vis_alpha =
     (case broadcast_op (*) vis_rgb (unsqueeze (length (shape vis_alpha)) vis_alpha) of
        Inl e \<Rightarrow> Inl e
      | Inr fg \<Rightarrow>
          broadcast_op (+) fg
            (unsqueeze (length (shape vis_alpha))
               (map_tensor (\<lambda>a. bg_color * (1 - a)) vis_alpha)))"

text \<open>
  \<^verbatim>\<open>t[:-1]\<close>: all slices along the first dimension but the last one. Both arrays have
  at least one dimension where the source takes this slice.
\<close>

definition drop_last_row :: "tensor \<Rightarrow> tensor" where
  "drop_last_row t =
     (case shape t of
        [] \<Rightarrow> t
      | n # rest \<Rightarrow> \<lparr>shape = (n - 1) # rest, data = take ((n - 1) * prod_list rest) (data t)\<rparr>)"

text \<open>
  The outer loop \<^verbatim>\<open>for ds, ws, rs in zip(dist, weights, rgbs)\<close>: each level resamples
  its rays and appends the stack of their colours and the stack of their weights. The
  resampled rays of a level are kept beside its two stacks, to say what a row of the
  result holds.
\<close>

fun process_levels ::
  "resampler \<Rightarrow> bool \<Rightarrow> real list \<Rightarrow> (tensor \<times> tensor \<times> tensor) list
     \<Rightarrow> error + ((tensor \<times> tensor) list \<times> tensor \<times> tensor) list" where
  "process_levels resample accumulate dist_vis [] = Inr []"
| "process_levels resample accumulate dist_vis (lvl # lvls) =
     (case level_rays resample accumulate dist_vis lvl of
        Inl e \<Rightarrow> Inl e
      | Inr rays \<Rightarrow>
          (case stack0 (map fst rays) of
             Inl e \<Rightarrow> Inl e
           | Inr vis_rs \<Rightarrow>
               (case stack0 (map snd rays) of
                  Inl e \<Rightarrow> Inl e
                | Inr vis_ws \<Rightarrow>
                    (case process_levels resample accumulate dist_vis lvls of
                       Inl e \<Rightarrow> Inl e
                     | Inr rest \<Rightarrow> Inr ((rays, vis_rs, vis_ws) # rest)))))"

text \<open>
  The branch \<^verbatim>\<open>if resolution > vis_rgb.shape[0]\<close>, which tiles both arrays, with
  \<^verbatim>\<open>rep = resolution // (vis_rgb.shape[0] * vis_rgb.shape[1] + 1)\<close> and
  \<^verbatim>\<open>stride = rep * vis_rgb.shape[1]\<close>.
\<close>

definition tile_branch :: "int \<Rightarrow> tensor \<Rightarrow> tensor \<Rightarrow> error + tensor \<times> tensor" where
  "tile_branch resolution vis_rgb vis_alpha =
     (let rep = nat (resolution div (int (shape vis_rgb ! 0 * shape vis_rgb ! 1) + 1));
          stride = rep * shape vis_rgb ! 1
      in case tile_pad [1, 1, rep, 1] stride vis_rgb of
           Inl e \<Rightarrow> Inl e
         | Inr rgb2 \<Rightarrow>
             (case tile_pad [1, 1, rep] stride vis_alpha of
                Inl e \<Rightarrow> Inl e
              | Inr alpha2 \<Rightarrow> Inr (rgb2, alpha2)))"

text \<open>
  \<^verbatim>\<open>visualize_rays\<close>; the argument \<^verbatim>\<open>dist\<close> is \<open>dists\<close> here. \<^verbatim>\<open>dist[0].device\<close> raises
  \<open>IndexError\<close> for an empty \<^verbatim>\<open>dist\<close>; \<^verbatim>\<open>dist\<close>, \<^verbatim>\<open>weights\<close> and \<^verbatim>\<open>rgbs\<close> hold one
  tensor per level.
\<close>

definition visualize_rays ::
  "resampler \<Rightarrow> tensor list \<Rightarrow> real \<times> real \<Rightarrow> tensor list \<Rightarrow> tensor list \<Rightarrow> bool \<Rightarrow> bool
     \<Rightarrow> int \<Rightarrow> real \<Rightarrow> error + tensor \<times> tensor" where
  "visualize_rays resample dists dist_range weights rgbs accumulate renormalize resolution
     bg_color =
     (if dists = [] then Inl IndexError
      else
        case linspace (fst dist_range) (snd dist_range) (resolution + 1) of
          Inl e \<Rightarrow> Inl e
        | Inr dist_vis \<Rightarrow>
        (case process_levels resample accumulate dist_vis (zip dists (zip weights rgbs)) of
          Inl e \<Rightarrow> Inl e
        | Inr levels \<Rightarrow>
        (case stack1 (map (\<lambda>l. fst (snd l)) levels) of
          Inl e \<Rightarrow> Inl e
        | Inr vis_rgb \<Rightarrow>
        (case stack1 (map (\<lambda>l. snd (snd l)) levels) of
          Inl e \<Rightarrow> Inl e
        | Inr alpha_raw \<Rightarrow>
        (case renormalize_alpha renormalize alpha_raw of
          Inl e \<Rightarrow> Inl e
        | Inr vis_alpha \<Rightarrow>
        (case (if resolution > int (shape vis_rgb ! 0)
               then tile_branch resolution vis_rgb vis_alpha
               else Inr (vis_rgb, vis_alpha)) of
          Inl e \<Rightarrow> Inl e
        | Inr (rgb2, alpha2) \<Rightarrow>
        (case composite bg_color rgb2 alpha2 of
          Inl e \<Rightarrow> Inl e
        | Inr vis \<Rightarrow> Inr (drop_last_row vis, drop_last_row alpha2))))))))"

text \<open>The default arguments \<^verbatim>\<open>resolution=2048, bg_color=0.8\<close>.\<close>

definition default_resolution :: int where
  "default_resolution = 2048"

definition default_bg_color :: real where
  "default_bg_color = 8 / 10"

section \<open>Properties\<close>

subsection \<open>Round trip of the colour space conversions\<close>

lemma powr_5_12_pow12:
  assumes "0 < (a::real)"
  shows "(a powr (5/12)) ^ 12 = a ^ 5"
proof -
  have "0 < a powr (5/12)" using assms by simp
  then have "(a powr (5/12)) ^ 12 = (a powr (5/12)) powr (real 12)"
    by (rule powr_realpow [symmetric])
  also have "\<dots> = a powr (real 5)" by (simp add: powr_powr)
  also have "\<dots> = a ^ 5" using assms by (rule powr_realpow)
  finally show ?thesis .
qed

lemma powr_5_12_le_iff:
  assumes "0 < a" "0 < b"
  shows "a powr (5/12) \<le> b \<longleftrightarrow> a ^ 5 \<le> (b::real) ^ 12"
proof -
  have "a powr (5/12) \<le> b \<longleftrightarrow> (a powr (5/12)) ^ 12 \<le> b ^ 12"
    using assms by simp
  then show ?thesis using assms by (simp add: powr_5_12_pow12)
qed

lemma powr_5_12_eq_iff:
  assumes "0 < a" "0 < b"
  shows "a powr (5/12) = b \<longleftrightarrow> a ^ 5 = (b::real) ^ 12"
proof -
  have "a powr (5/12) = b \<longleftrightarrow> (a powr (5/12)) ^ 12 = b ^ 12"
    using assms by (simp add: power_eq_iff_eq_base)
  then show ?thesis using assms by (simp add: powr_5_12_pow12)
qed

lemma linear_gap_hi_pos: "0 < linear_gap_hi"
  by (simp add: linear_gap_hi_def)

lemma linear_gap_hi_powr: "linear_gap_hi powr (5/12) = 1909 / 21100"
  by (simp add: linear_gap_hi_def powr_powr)

lemma powr_5_12_gt_iff:
  assumes "0 < x"
  shows "1909 / 21100 < x powr (5/12) \<longleftrightarrow> linear_gap_hi < x"
proof
  assume "1909 / 21100 < x powr (5/12)"
  then have "linear_gap_hi powr (5/12) < x powr (5/12)"
    by (simp add: linear_gap_hi_powr)
  then show "linear_gap_hi < x"
    using assms linear_gap_hi_pos powr_less_cancel2 [of "5/12" linear_gap_hi x] by simp
next
  assume "linear_gap_hi < x"
  then have "linear_gap_hi powr (5/12) < x powr (5/12)"
    using linear_gap_hi_pos by (intro powr_less_mono2) simp_all
  then show "1909 / 21100 < x powr (5/12)"
    by (simp add: linear_gap_hi_powr)
qed

lemma threshold_lt_gap_hi: "31308 / 10000000 < linear_gap_hi"
proof -
  have "(31308 / 10000000 :: real) powr (5/12) \<le> 1909 / 21100"
    by (subst powr_5_12_le_iff) (simp_all add: power_divide)
  then have "\<not> linear_gap_hi < 31308 / 10000000"
    using powr_5_12_gt_iff [of "31308 / 10000000"] by simp
  moreover have "linear_gap_hi \<noteq> 31308 / 10000000"
  proof
    assume a: "linear_gap_hi = 31308 / 10000000"
    have "(31308 / 10000000 :: real) powr (5/12) = 1909 / 21100"
      using linear_gap_hi_powr unfolding a .
    then show False by (subst (asm) powr_5_12_eq_iff) (simp_all add: power_divide)
  qed
  ultimately show ?thesis by simp
qed

lemma eps_default_None: "eps_or_default None = 1 / 2 ^ 23"
  by (simp add: eps_or_default_def float32_eps_def)

lemma srgb_linear_roundtrip_low:
  assumes "x \<le> 31308 / 10000000"
  shows "srgb_to_linear (linear_to_srgb x eps) eps = x"
  using assms by (simp add: srgb_to_linear_def linear_to_srgb_def Let_def)

lemma srgb_linear_roundtrip_high:
  assumes e: "0 < eps_or_default eps" "eps_or_default eps \<le> 31308 / 10000000"
    and x: "linear_gap_hi < x"
  shows "srgb_to_linear (linear_to_srgb x eps) eps = x"
proof -
  have x0: "31308 / 10000000 < x" using x threshold_lt_gap_hi by simp
  then have xpos: "0 < x" by simp
  have mx: "max (eps_or_default eps) x = x" using e x0 by simp
  define p where "p = x powr (5/12)"
  have p: "1909 / 21100 < p" using x powr_5_12_gt_iff [OF xpos] unfolding p_def by blast
  have s: "linear_to_srgb x eps = (211 * p - 11) / 200"
    using x0 mx by (simp add: linear_to_srgb_def Let_def p_def)
  have big: "\<not> (211 * p - 11) / 200 \<le> 4045 / 100000" using p by simp
  have inner: "(200 * ((211 * p - 11) / 200) + 11) / 211 = p" by (simp add: field_simps)
  have mx2: "max (eps_or_default eps) p = p" using e p by simp
  have "srgb_to_linear ((211 * p - 11) / 200) eps
          = (max (eps_or_default eps) ((200 * ((211 * p - 11) / 200) + 11) / 211)) powr (12/5)"
    using big by (simp only: srgb_to_linear_def Let_def if_False)
  also have "\<dots> = p powr (12/5)" by (simp only: inner mx2)
  also have "\<dots> = x" using xpos by (simp add: powr_powr p_def)
  finally show ?thesis by (simp only: s)
qed

lemma linear_srgb_roundtrip_low:
  assumes "s \<le> 31308 / 10000000 * (323 / 25)"
  shows "linear_to_srgb (srgb_to_linear s eps) eps = s"
  using assms by (simp add: srgb_to_linear_def linear_to_srgb_def Let_def)

lemma linear_srgb_roundtrip_high:
  assumes e: "0 < eps_or_default eps" "eps_or_default eps \<le> 31308 / 10000000"
    and s: "4045 / 100000 < s"
  shows "linear_to_srgb (srgb_to_linear s eps) eps = s"
proof -
  define b where "b = (200 * s + 11) / 211"
  have b: "1909 / 21100 < b" using s by (simp add: b_def)
  then have bpos: "0 < b" by simp
  have mb: "max (eps_or_default eps) b = b" using e b by simp
  have l: "srgb_to_linear s eps = b powr (12/5)"
    using s mb by (simp add: srgb_to_linear_def Let_def b_def)
  have bb: "(b powr (12/5)) powr (5/12) = b" using bpos by (simp add: powr_powr)
  have "0 < b powr (12/5)" using bpos by simp
  then have "linear_gap_hi < b powr (12/5)"
    using powr_5_12_gt_iff [of "b powr (12/5)"] b bb by simp
  then have big: "31308 / 10000000 < b powr (12/5)" using threshold_lt_gap_hi by simp
  then have ml: "max (eps_or_default eps) (b powr (12/5)) = b powr (12/5)" using e by simp
  have "linear_to_srgb (srgb_to_linear s eps) eps = (211 * b - 11) / 200"
    unfolding l using big ml bb by (simp add: linear_to_srgb_def Let_def)
  also have "\<dots> = s" by (simp add: b_def field_simps)
  finally show ?thesis .
qed

lemma gap_hi_lt_half: "linear_gap_hi < 1 / 2"
proof -
  have "\<not> ((1 / 2 :: real) powr (5/12) \<le> 1909 / 21100)"
    by (subst powr_5_12_le_iff) (simp_all add: power_divide)
  then show ?thesis using powr_5_12_gt_iff [of "1/2"] by simp
qed

text \<open>
  Claim C8, as amended. The claim says that the two conversions are mutually inverse on
  all of \<open>[0, 1]\<close> (away from the clamp at \<open>eps\<close>). That holds outside two narrow
  intervals next to the branch thresholds: \<open>srgb_to_linear (linear_to_srgb x) = x\<close>
  for \<open>x \<le> 0.0031308\<close> and for \<open>x > (1909 / 21100) powr (12 / 5)\<close>, and
  \<open>linear_to_srgb (srgb_to_linear s) = s\<close> for \<open>s \<le> 0.0031308 * 323 / 25\<close> and for
  \<open>s > 0.04045\<close>, for every \<open>eps\<close> in \<open>(0, 0.0031308]\<close>, the default included.
\<close>

theorem srgb_roundtrip_outside_gap:
  assumes "0 < eps_or_default eps" "eps_or_default eps \<le> 31308 / 10000000"
  shows "(x \<le> 31308 / 10000000 \<or> linear_gap_hi < x
            \<longrightarrow> srgb_to_linear (linear_to_srgb x eps) eps = x)
       \<and> (s \<le> 31308 / 10000000 * (323 / 25) \<or> 4045 / 100000 < s
            \<longrightarrow> linear_to_srgb (srgb_to_linear s eps) eps = s)"
  using assms srgb_linear_roundtrip_low srgb_linear_roundtrip_high
    linear_srgb_roundtrip_low linear_srgb_roundtrip_high by blast

text \<open>The amended round trip at \<open>x = s = 1 / 2\<close> with the default \<open>eps\<close>.\<close>

theorem srgb_roundtrip_outside_gap_witness:
  "srgb_to_linear (linear_to_srgb (1 / 2) None) None = 1 / 2
   \<and> linear_to_srgb (srgb_to_linear (1 / 2) None) None = 1 / 2"
  using srgb_roundtrip_outside_gap [of None "1 / 2" "1 / 2"] gap_hi_lt_half
  by (simp add: eps_default_None)

text \<open>
  Claim C8 as stated fails at the sRGB threshold itself: \<open>0.04045\<close> lies in
  \<open>[0, 1]\<close>, far above \<open>eps\<close>, it is sent to \<open>809 / 258400 > 0.0031308\<close> by the linear
  branch of \<open>srgb_to_linear\<close>, and the power branch of \<open>linear_to_srgb\<close> does not
  send that value back.
\<close>

theorem srgb_roundtrip_counterexample:
  "(0::real) \<le> 4045 / 100000 \<and> (4045 / 100000 :: real) \<le> 1
   \<and> eps_or_default None < 4045 / 100000
   \<and> linear_to_srgb (srgb_to_linear (4045 / 100000) None) None \<noteq> 4045 / 100000"
proof -
  have l: "srgb_to_linear (4045 / 100000) None = 809 / 258400"
    by (simp add: srgb_to_linear_def Let_def)
  have ne: "(809 / 258400 :: real) powr (5/12) \<noteq> 1909 / 21100"
    by (subst powr_5_12_eq_iff) (simp_all add: power_divide)
  have "linear_to_srgb (809 / 258400) None = (211 * (809 / 258400) powr (5/12) - 11) / 200"
    by (simp add: linear_to_srgb_def Let_def eps_default_None)
  then have "linear_to_srgb (809 / 258400) None \<noteq> 4045 / 100000"
    using ne by simp
  then have "linear_to_srgb (srgb_to_linear (4045 / 100000) None) None \<noteq> 4045 / 100000"
    unfolding l .
  moreover have "eps_or_default None < 4045 / 100000" by (simp add: eps_default_None)
  ultimately show ?thesis by simp
qed

subsection \<open>Colour correction\<close>

lemma clip_unit_bounds: "0 \<le> clip x 0 1 \<and> clip x 0 1 \<le> 1"
  by (simp add: clip_def)

lemma clip_unit_id: "0 \<le> x \<Longrightarrow> x \<le> 1 \<Longrightarrow> clip x 0 1 = x"
  by (simp add: clip_def)

lemma solve_channels_length:
  "solve_channels lstsq eps mask0 ref_mat img_mat a_mat cs = Inr ws \<Longrightarrow> length ws = length cs"
  by (induction cs arbitrary: ws) (auto split: sum.splits)

lemma color_correct_iter_rows:
  assumes "color_correct_iter lstsq eps C mask0 ref_mat img_mat = Inr m"
  shows "length m = length img_mat"
    and "\<forall>r \<in> set m. length r = C \<and> (\<forall>x \<in> set r. 0 \<le> x \<and> x \<le> 1)"
proof -
  from assms obtain warp where
    warp: "solve_channels lstsq eps mask0 ref_mat img_mat (map feature_row img_mat) [0..<C]
             = Inr warp"
    and m: "m = map (\<lambda>r. map (\<lambda>w. clip (dot r w) 0 1) warp) (map feature_row img_mat)"
    by (auto simp: color_correct_iter_def Let_def split: sum.splits)
  have "length warp = C" using solve_channels_length [OF warp] by simp
  then show "\<forall>r \<in> set m. length r = C \<and> (\<forall>x \<in> set r. 0 \<le> x \<and> x \<le> 1)"
    by (auto simp: m clip_unit_bounds)
  show "length m = length img_mat" by (simp add: m)
qed

lemma color_correct_loop_rows:
  assumes "color_correct_loop (Suc k) lstsq eps C mask0 ref_mat img_mat = Inr m"
  shows "length m = length img_mat
         \<and> (\<forall>r \<in> set m. length r = C \<and> (\<forall>x \<in> set r. 0 \<le> x \<and> x \<le> 1))"
  using assms
proof (induction k arbitrary: img_mat)
  case 0
  then show ?case
    using color_correct_iter_rows [of lstsq eps C mask0 ref_mat img_mat m]
    by (simp split: sum.splits)
next
  case (Suc k)
  from Suc.prems obtain m1 where
    m1: "color_correct_iter lstsq eps C mask0 ref_mat img_mat = Inr m1"
    and rest: "color_correct_loop (Suc k) lstsq eps C mask0 ref_mat m1 = Inr m"
    by (auto split: sum.splits)
  from Suc.IH [OF rest] color_correct_iter_rows(1) [OF m1] show ?case by simp
qed

lemma length_concat_uniform:
  "\<forall>r \<in> set m. length r = n \<Longrightarrow> length (concat m) = length m * n"
  by (induction m) auto

lemma length_rows_of: "length (rows_of n xs) = length xs div n"
  by (simp add: rows_of_def)

lemma last_dvd_prod_list: "s \<noteq> [] \<Longrightarrow> last s dvd prod_list (s::nat list)"
  by (induction s) auto

text \<open>
  Claim C5. Whenever \<^verbatim>\<open>color_correct\<close> returns an image after at least one iteration,
  that image has the shape of \<open>img\<close>, holds one element per position of that shape, and
  every element lies in \<open>[0, 1]\<close>: the last thing an iteration does is
  \<^verbatim>\<open>clip(a_mat @ warp, 0, 1)\<close>. This holds for every least-squares solver, every
  \<open>ref\<close> and every \<open>eps\<close>; a returned image implies equal channel counts.
\<close>

theorem color_correct_clipped_shape:
  assumes ret: "color_correct lstsq img ref num_iters eps = Inr out"
    and iters: "1 \<le> num_iters"
    and wf: "wf_tensor img"
  shows "shape out = shape img \<and> wf_tensor out \<and> (\<forall>x \<in> set (data out). 0 \<le> x \<and> x \<le> 1)"
proof -
  define C where "C = last (shape img)"
  define img_mat where "img_mat = rows_of C (data img)"
  define ref_mat where "ref_mat = rows_of C (data ref)"
  define mask0 where "mask0 = map (map (is_unclipped eps)) img_mat"
  from iters obtain k where k: "nat num_iters = Suc k"
    by (cases "nat num_iters") auto
  from ret have ne: "shape img \<noteq> []" and C0: "C \<noteq> 0"
    by (auto simp: color_correct_def C_def Let_def split: if_splits)
  from ret obtain m where
    loop: "color_correct_loop (nat num_iters) lstsq eps C mask0 ref_mat img_mat = Inr m"
    and out: "out = \<lparr>shape = shape img, data = concat m\<rparr>"
    by (auto simp: color_correct_def C_def img_mat_def ref_mat_def mask0_def Let_def
        split: if_splits sum.splits)
  from loop k have rows: "length m = length img_mat"
    "\<forall>r \<in> set m. length r = C \<and> (\<forall>x \<in> set r. 0 \<le> x \<and> x \<le> 1)"
    using color_correct_loop_rows [of k lstsq eps C mask0 ref_mat img_mat m] by simp_all
  have "C dvd length (data img)"
    using wf ne last_dvd_prod_list [of "shape img"] by (simp add: wf_tensor_def C_def)
  then have "length m * C = length (data img)"
    using rows(1) by (simp add: img_mat_def length_rows_of)
  then have "length (concat m) = prod_list (shape img)"
    using rows(2) wf length_concat_uniform [of m C] by (simp add: wf_tensor_def)
  moreover have "\<forall>x \<in> set (concat m). 0 \<le> x \<and> x \<le> 1"
    using rows(2) by auto
  ultimately show ?thesis by (simp add: out wf_tensor_def)
qed

text \<open>
  A call that returns: two pixels with one channel, one iteration, and a solver that
  answers with the warp \<open>[0, 3, 0]\<close>, so that the clip is needed for the first pixel.
\<close>

theorem color_correct_clipped_shape_witness:
  "color_correct (\<lambda>A b. Some [0, 3, 0])
     \<lparr>shape = [2, 1, 1], data = [1 / 2, 1 / 4]\<rparr> \<lparr>shape = [2, 1, 1], data = [1 / 2, 1 / 4]\<rparr>
     1 default_eps = Inr \<lparr>shape = [2, 1, 1], data = [1, 3 / 4]\<rparr>
   \<and> shape \<lparr>shape = [2, 1, 1], data = [1, 3 / 4]\<rparr> = [2, 1, 1]
   \<and> wf_tensor \<lparr>shape = [2, 1, 1], data = [1, 3 / 4]\<rparr>
   \<and> list_all (\<lambda>x. 0 \<le> x \<and> x \<le> 1) [1, 3 / 4 :: real]"
proof -
  have ret: "color_correct (\<lambda>A b. Some [0, 3, 0])
     \<lparr>shape = [2, 1, 1], data = [1 / 2, 1 / 4]\<rparr> \<lparr>shape = [2, 1, 1], data = [1 / 2, 1 / 4]\<rparr>
     1 default_eps = Inr \<lparr>shape = [2, 1, 1], data = [1, 3 / 4]\<rparr>"
    by (simp add: color_correct_def rows_of_def color_correct_iter_def solve_channel_def
        broadcast_dim_def feature_row_def dot_def clip_def Let_def)
  have wf: "wf_tensor \<lparr>shape = [2, 1, 1], data = [1 / 2, 1 / 4]\<rparr>"
    by (simp add: wf_tensor_def)
  show ?thesis
    using color_correct_clipped_shape [OF ret _ wf] ret by (simp add: list_all_iff)
qed

text \<open>
  Claim C6. When the last dimensions of \<open>img\<close> and \<open>ref\<close> differ, \<^verbatim>\<open>color_correct\<close>
  raises the \<open>ValueError\<close> of its first statement (the ShapeError of the specification).
  The result does not depend on the solver, the pixel data, \<open>num_iters\<close> or \<open>eps\<close>:
  the check comes before any pixel computation.
\<close>

theorem color_correct_channel_mismatch:
  assumes "shape img \<noteq> []" "shape ref \<noteq> []" "last (shape img) \<noteq> last (shape ref)"
  shows "color_correct lstsq img ref num_iters eps = Inl ValueError"
  using assms by (simp add: color_correct_def)

text \<open>An image with 3 channels against a reference with 4.\<close>

theorem color_correct_channel_mismatch_witness:
  "color_correct (\<lambda>A b. None)
     \<lparr>shape = [2, 2, 3], data = replicate 12 (1 / 2)\<rparr>
     \<lparr>shape = [2, 2, 4], data = replicate 16 (1 / 2)\<rparr> default_num_iters default_eps
   = Inl ValueError"
  using color_correct_channel_mismatch
    [of "\<lparr>shape = [2, 2, 3], data = replicate 12 (1 / 2)\<rparr>"
        "\<lparr>shape = [2, 2, 4], data = replicate 16 (1 / 2)\<rparr>"
        "\<lambda>A b. None" default_num_iters default_eps]
  by simp

lemma length_quadratic:
  "length (concat (map (\<lambda>c. map (\<lambda>x. p ! c * x) (drop c p)) [0..<n]))
     = sum_list (map (\<lambda>c. length p - c) [0..<n])"
  by (induction n) simp_all

lemma length_feature_row: "length (feature_row p) = num_features (length p)"
  by (simp add: feature_row_def num_features_def length_quadratic)

lemma length_unit_warp: "length (unit_warp C c) = num_features C"
  by (simp add: unit_warp_def num_features_def)

lemma dot_append:
  "length xs = length us \<Longrightarrow> dot (xs @ ys) (us @ vs) = dot xs us + dot ys vs"
  by (simp add: dot_def)

lemma dot_zero: "dot xs (replicate n 0) = 0"
proof (induction xs arbitrary: n)
  case Nil
  then show ?case by (simp add: dot_def)
next
  case (Cons x xs)
  then show ?case by (cases n) (simp_all add: dot_def)
qed

lemma dot_Cons: "dot (x # xs) (y # ys) = x * y + dot xs ys"
  by (simp add: dot_def)

lemma dot_unit: "c < length p \<Longrightarrow> dot p ((replicate (length p) 0)[c := 1]) = p ! c"
proof (induction p arbitrary: c)
  case Nil
  then show ?case by simp
next
  case (Cons x p)
  show ?case
  proof (cases c)
    case 0
    then show ?thesis using dot_zero [of p "length p"] by (simp add: dot_Cons)
  next
    case (Suc c')
    then show ?thesis using Cons by (simp add: dot_Cons)
  qed
qed

lemma dot_feature_unit:
  assumes "c < length p"
  shows "dot (feature_row p) (unit_warp (length p) c) = p ! c"
proof -
  define q where "q = concat (map (\<lambda>c. map (\<lambda>x. p ! c * x) (drop c p)) [0..<length p])"
  define Q where "Q = sum_list (map (\<lambda>c. length p - c) [0..<length p])"
  have lq: "length q = length (replicate Q (0::real))"
    by (simp add: q_def Q_def length_quadratic)
  have "dot (feature_row p) (unit_warp (length p) c)
          = dot (q @ (p @ [1])) (replicate Q 0 @ ((replicate (length p) 0)[c := 1] @ [0]))"
    by (simp add: feature_row_def unit_warp_def q_def Q_def)
  also have "\<dots> = dot q (replicate Q 0)
                    + dot (p @ [1]) ((replicate (length p) 0)[c := 1] @ [0])"
    using lq by (rule dot_append)
  also have "\<dots> = dot p ((replicate (length p) 0)[c := 1]) + dot [1] [0]"
    by (simp add: dot_zero dot_append)
  also have "\<dots> = p ! c + dot [1] [0]" using assms by (simp only: dot_unit)
  also have "\<dots> = p ! c" by (simp add: dot_def)
  finally show ?thesis .
qed

lemma residual_nonneg: "0 \<le> residual A w b"
  by (auto simp: residual_def intro!: sum_list_nonneg)

lemma residual_zero_rows:
  assumes "residual A w b = 0" "i < length A" "i < length b"
  shows "dot (A ! i) w = b ! i"
proof -
  have "\<forall>x \<in> set (map2 (\<lambda>r y. (dot r w - y)\<^sup>2) A b). x = 0"
    using assms(1) unfolding residual_def
    by (subst (asm) sum_list_nonneg_eq_0_iff) auto
  then have all: "\<forall>x \<in> set (zip A b). (dot (fst x) w - snd x)\<^sup>2 = 0"
    by (auto simp: case_prod_beta)
  have "(A ! i, b ! i) \<in> set (zip A b)"
    using assms(2,3) by (auto simp: set_zip)
  with all have "(dot (A ! i) w - b ! i)\<^sup>2 = 0" by fastforce
  then show ?thesis by simp
qed

lemma residual_unit_warp:
  assumes "\<forall>r \<in> set m. length r = C" "c < C"
  shows "residual (map feature_row m) (unit_warp C c) (column c m) = 0"
proof -
  have "\<forall>x \<in> set (map2 (\<lambda>r y. (dot r (unit_warp C c) - y)\<^sup>2) (map feature_row m) (column c m)).
          x = 0"
    using assms by (auto simp: column_def zip_map_map zip_same_conv_map dot_feature_unit
        set_zip)
  then show ?thesis unfolding residual_def
    by (subst sum_list_nonneg_eq_0_iff) auto
qed

lemma rows_of_row_length:
  assumes "r \<in> set (rows_of n xs)"
  shows "length r = n"
proof -
  from assms obtain i where i: "i < length xs div n" and r: "r = take n (drop (i * n) xs)"
    by (auto simp: rows_of_def)
  have "Suc i * n \<le> length xs div n * n" using i by (intro mult_le_mono1) simp
  also have "\<dots> \<le> length xs" by simp
  finally have "n \<le> length xs - i * n" by simp
  then show ?thesis by (simp add: r)
qed

lemma rows_of_elems:
  assumes "r \<in> set (rows_of n xs)" "x \<in> set r"
  shows "x \<in> set xs"
  using assms by (auto simp: rows_of_def dest!: in_set_takeD in_set_dropD)

lemma concat_rows_upto:
  "concat (map (\<lambda>i. take n (drop (i * n) xs)) [0..<k]) = take (k * n) xs"
proof (induction k)
  case 0
  then show ?case by simp
next
  case (Suc k)
  have "take (k * n) xs @ take n (drop (k * n) xs) = take (k * n + n) xs"
    by (simp add: take_add)
  then show ?case using Suc by (simp add: add.commute)
qed

lemma concat_rows_of:
  assumes "n dvd length xs"
  shows "concat (rows_of n xs) = xs"
  using assms by (simp add: rows_of_def concat_rows_upto)

lemma bidx_id: "i < n \<Longrightarrow> bidx n i = i"
  by (simp add: bidx_def)

lemma solve_channel_identity:
  assumes len: "\<forall>r \<in> set m. length r = C"
    and un: "\<forall>r \<in> set m. \<forall>z \<in> set r. is_unclipped eps z"
    and c: "c < C"
    and s: "lstsq (map feature_row m) (column c m) = Some w"
  shows "solve_channel lstsq eps (map (map (is_unclipped eps)) m) m m (map feature_row m) c
           = Inr w"
proof -
  have elem: "is_unclipped eps (m ! i ! c)" if "i < length m" for i
  proof -
    have "m ! i \<in> set m" using that by simp
    moreover from this have "m ! i ! c \<in> set (m ! i)" using len c by simp
    ultimately show ?thesis using un by blast
  qed
  have mask: "\<And>i. i < length m \<Longrightarrow>
      map (map (is_unclipped eps)) m ! bidx (length m) i ! c
      \<and> is_unclipped eps (m ! bidx (length m) i ! c)
      \<and> is_unclipped eps (column c m ! bidx (length m) i)"
  proof -
    fix i assume i: "i < length m"
    then have "c < length (m ! i)" using len c by simp
    then show "map (map (is_unclipped eps)) m ! bidx (length m) i ! c
      \<and> is_unclipped eps (m ! bidx (length m) i ! c)
      \<and> is_unclipped eps (column c m ! bidx (length m) i)"
      using elem [OF i] i by (simp add: bidx_id column_def)
  qed
  have A: "map (\<lambda>i. if map (map (is_unclipped eps)) m ! bidx (length m) i ! c
                       \<and> is_unclipped eps (m ! bidx (length m) i ! c)
                       \<and> is_unclipped eps (column c m ! bidx (length m) i)
                     then map feature_row m ! bidx (length m) i
                     else map (\<lambda>_. 0) (map feature_row m ! bidx (length m) i)) [0..<length m]
           = map feature_row m"
    using mask by (intro nth_equalityI) (simp_all add: bidx_id)
  have b: "map (\<lambda>i. if map (map (is_unclipped eps)) m ! bidx (length m) i ! c
                       \<and> is_unclipped eps (m ! bidx (length m) i ! c)
                       \<and> is_unclipped eps (column c m ! bidx (length m) i)
                     then column c m ! bidx (length m) i else 0) [0..<length m]
           = column c m"
    using mask by (intro nth_equalityI) (simp_all add: bidx_id column_def)
  have bd: "broadcast_dim (length m) (length m) = Some (length m)"
    by (simp add: broadcast_dim_def)
  show ?thesis
    unfolding solve_channel_def Let_def bd
    by (simp only: option.case A b s)
qed

lemma least_squares_exact:
  assumes len: "\<forall>r \<in> set m. length r = C" and c: "c < C"
    and ls: "least_squares (map feature_row m) (column c m) (num_features C) w"
    and i: "i < length m"
  shows "dot (feature_row (m ! i)) w = m ! i ! c"
proof -
  have "residual (map feature_row m) w (column c m)
          \<le> residual (map feature_row m) (unit_warp C c) (column c m)"
    using ls length_unit_warp [of C c] by (simp add: least_squares_def)
  then have "residual (map feature_row m) w (column c m) = 0"
    using residual_unit_warp [OF len c] residual_nonneg [of "map feature_row m" w "column c m"]
    by simp
  then have "dot (map feature_row m ! i) w = column c m ! i"
    using i by (intro residual_zero_rows) (simp_all add: column_def)
  then show ?thesis using i by (simp add: column_def)
qed

lemma solve_channels_identity:
  assumes len: "\<forall>r \<in> set m. length r = C"
    and un: "\<forall>r \<in> set m. \<forall>z \<in> set r. is_unclipped eps z"
    and solver: "\<forall>c < C. solves_least_squares lstsq (map feature_row m) (column c m)
                   (num_features C)"
    and cs: "\<forall>c \<in> set cs. c < C"
  shows "\<exists>ws. solve_channels lstsq eps (map (map (is_unclipped eps)) m) m m
                 (map feature_row m) cs = Inr ws
              \<and> length ws = length cs
              \<and> (\<forall>j < length cs.
                    least_squares (map feature_row m) (column (cs ! j) m) (num_features C)
                      (ws ! j))"
  using cs
proof (induction cs)
  case Nil
  then show ?case by simp
next
  case (Cons c cs)
  from Cons.prems have c: "c < C" by simp
  with solver obtain w where
    w: "lstsq (map feature_row m) (column c m) = Some w"
    and ls: "least_squares (map feature_row m) (column c m) (num_features C) w"
    by (auto simp: solves_least_squares_def)
  from Cons obtain ws where
    ws: "solve_channels lstsq eps (map (map (is_unclipped eps)) m) m m (map feature_row m) cs
           = Inr ws"
    and lws: "length ws = length cs"
    and lss: "\<forall>j < length cs.
                least_squares (map feature_row m) (column (cs ! j) m) (num_features C) (ws ! j)"
    by auto
  have "solve_channel lstsq eps (map (map (is_unclipped eps)) m) m m (map feature_row m) c
          = Inr w"
    using len un c w by (rule solve_channel_identity)
  then have "solve_channels lstsq eps (map (map (is_unclipped eps)) m) m m (map feature_row m)
          (c # cs) = Inr (w # ws)"
    using ws by simp
  moreover have "\<forall>j < length (c # cs).
      least_squares (map feature_row m) (column ((c # cs) ! j) m) (num_features C)
        ((w # ws) ! j)"
    using ls lss by (auto simp: nth_Cons split: nat.splits)
  ultimately show ?case using lws by simp
qed

lemma color_correct_iter_identity:
  assumes len: "\<forall>r \<in> set m. length r = C"
    and un: "\<forall>r \<in> set m. \<forall>z \<in> set r. is_unclipped eps z"
    and eps: "0 \<le> eps"
    and solver: "\<forall>c < C. solves_least_squares lstsq (map feature_row m) (column c m)
                   (num_features C)"
  shows "color_correct_iter lstsq eps C (map (map (is_unclipped eps)) m) m m = Inr m"
proof -
  from solve_channels_identity [OF len un solver, of "[0..<C]"] obtain ws where
    ws: "solve_channels lstsq eps (map (map (is_unclipped eps)) m) m m
           (map feature_row m) [0..<C] = Inr ws"
    and lws: "length ws = C"
    and lss: "\<forall>j < C. least_squares (map feature_row m) (column j m) (num_features C) (ws ! j)"
    by auto
  have "map (\<lambda>r. map (\<lambda>w. clip (dot r w) 0 1) ws) (map feature_row m) = m"
  proof (rule nth_equalityI)
    show "length (map (\<lambda>r. map (\<lambda>w. clip (dot r w) 0 1) ws) (map feature_row m)) = length m"
      by simp
  next
    fix i assume "i < length (map (\<lambda>r. map (\<lambda>w. clip (dot r w) 0 1) ws) (map feature_row m))"
    then have i: "i < length m" by simp
    then have mi: "m ! i \<in> set m" by simp
    then have li: "length (m ! i) = C" using len by blast
    have "map (\<lambda>w. clip (dot (feature_row (m ! i)) w) 0 1) ws = m ! i"
    proof (rule nth_equalityI)
      show "length (map (\<lambda>w. clip (dot (feature_row (m ! i)) w) 0 1) ws) = length (m ! i)"
        using lws li by simp
    next
      fix j assume "j < length (map (\<lambda>w. clip (dot (feature_row (m ! i)) w) 0 1) ws)"
      then have j: "j < C" using lws by simp
      have d: "dot (feature_row (m ! i)) (ws ! j) = m ! i ! j"
        using least_squares_exact [OF len j _ i] lss j by blast
      have "m ! i ! j \<in> set (m ! i)" using j li by simp
      then have "is_unclipped eps (m ! i ! j)" using un mi by blast
      then have "0 \<le> m ! i ! j \<and> m ! i ! j \<le> 1" using eps by (simp add: is_unclipped_def)
      then show "map (\<lambda>w. clip (dot (feature_row (m ! i)) w) 0 1) ws ! j = m ! i ! j"
        using j lws d by (simp add: clip_unit_id)
    qed
    then show "map (\<lambda>r. map (\<lambda>w. clip (dot r w) 0 1) ws) (map feature_row m) ! i = m ! i"
      using i by simp
  qed
  then show ?thesis by (simp add: color_correct_iter_def ws)
qed

lemma color_correct_loop_identity:
  assumes "color_correct_iter lstsq eps C mask0 m m = Inr m"
  shows "color_correct_loop k lstsq eps C mask0 m m = Inr m"
  using assms by (induction k) simp_all

lemma unit_warp_least_squares:
  assumes "\<forall>r \<in> set m. length r = C" "c < C"
  shows "least_squares (map feature_row m) (column c m) (num_features C) (unit_warp C c)"
  using residual_unit_warp [OF assms] residual_nonneg
  by (simp add: least_squares_def length_unit_warp)

text \<open>
  Claim C4. For an image whose elements all lie in \<open>[eps, 1 - eps]\<close> (in particular
  strictly inside, and for the default \<open>eps = 0.5 / 255\<close>), \<^verbatim>\<open>color_correct(img, img)\<close>
  returns \<open>img\<close>, for every number of iterations, provided the solver returns a
  least-squares solution of the systems of the first iteration: no row is masked, the
  identity warp has residual zero, so every least-squares solution reproduces the image,
  and the clip leaves it unchanged.
\<close>

theorem color_correct_identity_fixed_point:
  assumes wf: "wf_tensor img"
    and ne: "shape img \<noteq> []"
    and ch: "last (shape img) \<noteq> 0"
    and eps: "0 \<le> eps"
    and unsat: "\<forall>z \<in> set (data img). eps \<le> z \<and> z \<le> 1 - eps"
    and solver: "\<forall>c < last (shape img).
        solves_least_squares lstsq
          (map feature_row (rows_of (last (shape img)) (data img)))
          (column c (rows_of (last (shape img)) (data img)))
          (num_features (last (shape img)))"
  shows "color_correct lstsq img img num_iters eps = Inr img"
proof -
  define C where "C = last (shape img)"
  define m where "m = rows_of C (data img)"
  have len: "\<forall>r \<in> set m. length r = C"
    by (simp add: m_def rows_of_row_length)
  have un: "\<forall>r \<in> set m. \<forall>z \<in> set r. is_unclipped eps z"
    using unsat rows_of_elems [of _ C "data img"] by (auto simp: m_def is_unclipped_def)
  have "color_correct_iter lstsq eps C (map (map (is_unclipped eps)) m) m m = Inr m"
    using solver by (intro color_correct_iter_identity [OF len un eps]) (simp add: C_def m_def)
  then have loop: "color_correct_loop (nat num_iters) lstsq eps C
                     (map (map (is_unclipped eps)) m) m m = Inr m"
    by (rule color_correct_loop_identity)
  have "C dvd length (data img)"
    using wf ne last_dvd_prod_list [of "shape img"] by (simp add: wf_tensor_def C_def)
  then have "concat m = data img" by (simp add: m_def concat_rows_of)
  then show ?thesis
    using ne ch loop by (simp add: color_correct_def Let_def C_def [symmetric] m_def [symmetric])
qed

text \<open>
  One RGB pixel, with a solver that answers each of the three systems with the warp
  column of its channel, which \<open>unit_warp_least_squares\<close> shows to be a least-squares
  solution.
\<close>

theorem color_correct_identity_fixed_point_witness:
  "color_correct
     (\<lambda>A b. Some (unit_warp 3 (if b = [1 / 4] then 0 else if b = [1 / 2] then 1 else 2)))
     \<lparr>shape = [1, 1, 3], data = [1 / 4, 1 / 2, 3 / 4]\<rparr>
     \<lparr>shape = [1, 1, 3], data = [1 / 4, 1 / 2, 3 / 4]\<rparr> default_num_iters default_eps
   = Inr \<lparr>shape = [1, 1, 3], data = [1 / 4, 1 / 2, 3 / 4]\<rparr>"
proof -
  let ?lstsq = "\<lambda>(A::real list list) (b::real list).
                  Some (unit_warp 3 (if b = [1 / 4] then 0 else if b = [1 / 2] then 1 else 2))"
  let ?img = "\<lparr>shape = [1, 1, 3], data = [1 / 4, 1 / 2, 3 / 4]\<rparr>"
  let ?m = "[[1 / 4, 1 / 2, 3 / 4 :: real]]"
  have rows: "rows_of 3 [1 / 4, 1 / 2, 3 / 4 :: real] = ?m"
    by (simp add: rows_of_def)
  have len: "\<forall>r \<in> set ?m. length r = 3" by simp
  have solver: "\<forall>c < 3. solves_least_squares ?lstsq (map feature_row ?m) (column c ?m)
                  (num_features 3)"
  proof (intro allI impI)
    fix c :: nat assume "c < 3"
    then consider "c = 0" | "c = 1" | "c = 2" by linarith
    then show "solves_least_squares ?lstsq (map feature_row ?m) (column c ?m) (num_features 3)"
    proof cases
      case 1
      then show ?thesis
        using unit_warp_least_squares [OF len, of 0]
        by (simp add: solves_least_squares_def column_def)
    next
      case 2
      then show ?thesis
        using unit_warp_least_squares [OF len, of 1]
        by (simp add: solves_least_squares_def column_def)
    next
      case 3
      then show ?thesis
        using unit_warp_least_squares [OF len, of 2]
        by (simp add: solves_least_squares_def column_def)
    qed
  qed
  have "wf_tensor ?img" by (simp add: wf_tensor_def)
  moreover have "\<forall>z \<in> set (data ?img). default_eps \<le> z \<and> z \<le> 1 - default_eps"
    by (simp add: default_eps_def)
  moreover have "0 \<le> default_eps" by (simp add: default_eps_def)
  ultimately show ?thesis
    using color_correct_identity_fixed_point [of ?img default_eps ?lstsq default_num_iters]
      solver
    by (simp add: rows)
qed

subsection \<open>Blocks and broadcasting\<close>

lemma block_nth:
  assumes "k < n" "i * n + k < length xs"
  shows "block n i xs ! k = xs ! (i * n + k)"
  using assms by (simp add: block_def)

lemma length_block:
  assumes "Suc i * n \<le> length xs"
  shows "length (block n i xs) = n"
  using assms by (simp add: block_def)

lemma block_block:
  assumes "j < P"
  shows "block C j (block (P * C) i xs) = block C (i * P + j) xs"
proof -
  have "Suc j * C \<le> P * C" using assms by (intro mult_le_mono1) simp
  then have le: "C \<le> P * C - j * C" by simp
  have "block C j (block (P * C) i xs) = take C (take (P * C - j * C) (drop (j * C) (drop (i * (P * C)) xs)))"
    by (simp add: block_def drop_take)
  also have "\<dots> = take C (drop (j * C + i * (P * C)) xs)"
    using le by (simp add: min_absorb1)
  also have "j * C + i * (P * C) = (i * P + j) * C"
    by (simp add: algebra_simps)
  finally show ?thesis by (simp add: block_def)
qed

lemma concat_map_upt_mult:
  "concat (map F [0..<n * P]) = concat (map (\<lambda>i. concat (map (\<lambda>j. F (i * P + j)) [0..<P])) [0..<n])"
proof (induction n)
  case 0
  then show ?case by simp
next
  case (Suc n)
  have "[0..<Suc n * P] = [0..<n * P] @ map (\<lambda>j. n * P + j) [0..<P]"
  proof -
    have "[0..<n * P + P] = [0..<n * P] @ [n * P..<n * P + P]"
      by (rule upt_add_eq_append) simp
    moreover have "[n * P..<n * P + P] = map (\<lambda>j. n * P + j) [0..<P]"
      by (simp add: map_add_upt add.commute)
    ultimately show ?thesis by (simp add: add.commute)
  qed
  then show ?case using Suc by (simp add: comp_def)
qed

lemma concat_blocks:
  assumes "length xs = n * P"
  shows "concat (map (\<lambda>i. block P i xs) [0..<n]) = xs"
proof -
  have "concat (map (\<lambda>i. take P (drop (i * P) xs)) [0..<k]) = take (k * P) xs" for k
  proof (induction k)
    case 0
    then show ?case by simp
  next
    case (Suc k)
    have "take (k * P) xs @ take P (drop (k * P) xs) = take (k * P + P) xs"
      by (simp add: take_add)
    then show ?case using Suc by (simp add: add.commute)
  qed
  then show ?thesis using assms by (simp add: block_def)
qed

lemma broadcast_shape_same: "broadcast_shape s s = Some s"
  by (induction s) (simp_all add: broadcast_dim_def)

lemma broadcast_shape_trailing: "broadcast_shape (s @ [C]) (s @ [1]) = Some (s @ [C])"
  by (induction s) (simp_all add: broadcast_dim_def)

lemma block_mono_length:
  assumes "length xs = n * P" "i < n"
  shows "length (block P i xs) = P"
proof -
  have "Suc i * P \<le> n * P" using assms(2) by (intro mult_le_mono1) simp
  then show ?thesis using assms(1) by (intro length_block) simp
qed

lemma broadcast_data_same:
  assumes "length xs = prod_list s" "length ys = prod_list s"
  shows "broadcast_data f s xs s ys = map2 f xs ys"
  using assms
proof (induction s arbitrary: xs ys)
  case Nil
  then show ?case by simp
next
  case (Cons n s)
  define P where "P = prod_list s"
  have lx: "length xs = n * P" and ly: "length ys = n * P"
    using Cons.prems by (simp_all add: P_def)
  have step: "broadcast_data f s (block P (bidx n i) xs) s (block P (bidx n i) ys)
                = block P i (map2 f xs ys)" if "i < n" for i
  proof -
    have "broadcast_data f s (block P i xs) s (block P i ys)
            = map2 f (block P i xs) (block P i ys)"
      using block_mono_length [OF lx that] block_mono_length [OF ly that]
      by (intro Cons.IH) (simp_all add: P_def)
    also have "\<dots> = block P i (map2 f xs ys)"
      by (simp add: block_def take_zip drop_zip take_map drop_map)
    finally show ?thesis using that by (simp add: bidx_id)
  qed
  have "broadcast_data f (n # s) xs (n # s) ys
          = concat (map (\<lambda>i. broadcast_data f s (block P (bidx n i) xs) s
                                   (block P (bidx n i) ys)) [0..<n])"
    by (simp add: P_def)
  also have "\<dots> = concat (map (\<lambda>i. block P i (map2 f xs ys)) [0..<n])"
    using step by (intro arg_cong [where f = concat] map_cong) simp_all
  also have "\<dots> = map2 f xs ys"
    using lx ly by (intro concat_blocks) simp
  finally show ?case .
qed

lemma broadcast_data_trailing:
  assumes "length xs = prod_list s * C" "length ys = prod_list s"
  shows "broadcast_data f (s @ [C]) xs (s @ [1]) ys
           = concat (map (\<lambda>i. map (\<lambda>x. f x (ys ! i)) (block C i xs)) [0..<prod_list s])"
  using assms
proof (induction s arbitrary: xs ys)
  case Nil
  then obtain y where ys: "ys = [y]" by (cases ys) auto
  have "broadcast_data f [C] xs [1] ys
          = concat (map (\<lambda>i. map2 f (block 1 (bidx C i) xs) (block 1 (bidx 1 i) ys)) [0..<C])"
    by simp
  also have "\<dots> = concat (map (\<lambda>i. [f (xs ! i) y]) [0..<C])"
  proof (intro arg_cong [where f = concat] map_cong refl)
    fix i assume "i \<in> set [0..<C]"
    then have i: "i < length xs" using Nil.prems by simp
    then have "block 1 (bidx C i) xs = [xs ! i]"
      using Nil.prems by (simp add: bidx_id block_def take_Suc_conv_app_nth)
    moreover have "block 1 (bidx 1 i) ys = [y]"
      by (simp add: bidx_def block_def ys)
    ultimately show "map2 f (block 1 (bidx C i) xs) (block 1 (bidx 1 i) ys) = [f (xs ! i) y]"
      by simp
  qed
  also have "\<dots> = map (\<lambda>i. f (xs ! i) y) [0..<C]"
    by (induction C) simp_all
  also have "\<dots> = map (\<lambda>x. f x y) xs"
    using Nil.prems by (intro nth_equalityI) simp_all
  finally show ?case using Nil.prems by (simp add: ys block_def)
next
  case (Cons n s)
  define P where "P = prod_list s"
  have lx: "length xs = n * (P * C)" and ly: "length ys = n * P"
    using Cons.prems by (simp_all add: P_def)
  have pc: "prod_list (s @ [C]) = P * C" and p1: "prod_list (s @ [1]) = P"
    by (simp_all add: P_def)
  have step: "broadcast_data f (s @ [C]) (block (P * C) (bidx n i) xs) (s @ [1])
                (block P (bidx n i) ys)
              = concat (map (\<lambda>j. map (\<lambda>x. f x (ys ! (i * P + j))) (block C (i * P + j) xs))
                  [0..<P])" if i: "i < n" for i
  proof -
    have "broadcast_data f (s @ [C]) (block (P * C) i xs) (s @ [1]) (block P i ys)
            = concat (map (\<lambda>j. map (\<lambda>x. f x (block P i ys ! j)) (block C j (block (P * C) i xs)))
                [0..<P])"
      using block_mono_length [OF lx i] block_mono_length [OF ly i]
      unfolding P_def by (intro Cons.IH) simp_all
    also have "\<dots> = concat (map (\<lambda>j. map (\<lambda>x. f x (ys ! (i * P + j))) (block C (i * P + j) xs))
                [0..<P])"
    proof (rule arg_cong [where f = concat], rule map_cong [OF refl])
      fix j assume "j \<in> set [0..<P]"
      then have j: "j < P" by simp
      have "Suc i * P \<le> n * P" using i by (intro mult_le_mono1) simp
      then have "i * P + j < length ys" using j ly by simp
      then have "block P i ys ! j = ys ! (i * P + j)" using j by (intro block_nth)
      then show "map (\<lambda>x. f x (block P i ys ! j)) (block C j (block (P * C) i xs))
                 = map (\<lambda>x. f x (ys ! (i * P + j))) (block C (i * P + j) xs)"
        using j by (simp add: block_block)
    qed
    finally show ?thesis using i by (simp add: bidx_id)
  qed
  have "broadcast_data f ((n # s) @ [C]) xs ((n # s) @ [1]) ys
          = concat (map (\<lambda>i. broadcast_data f (s @ [C]) (block (P * C) (bidx n i) xs) (s @ [1])
                                   (block P (bidx n i) ys)) [0..<n])"
    by (simp add: P_def)
  also have "\<dots> = concat (map (\<lambda>i. concat (map (\<lambda>j. map (\<lambda>x. f x (ys ! (i * P + j)))
                        (block C (i * P + j) xs)) [0..<P])) [0..<n])"
    using step by (intro arg_cong [where f = concat] map_cong) simp_all
  also have "\<dots> = concat (map (\<lambda>k. map (\<lambda>x. f x (ys ! k)) (block C k xs)) [0..<n * P])"
    by (rule concat_map_upt_mult [symmetric])
  finally show ?case by (simp add: P_def)
qed

subsection \<open>Matting\<close>

lemma block_concat_uniform:
  assumes "\<forall>r \<in> set rows. length r = C" "i < length rows"
  shows "block C i (concat rows) = rows ! i"
  using assms
proof (induction rows arbitrary: i)
  case Nil
  then show ?case by simp
next
  case (Cons r rows)
  show ?case
  proof (cases i)
    case 0
    then show ?thesis using Cons.prems by (simp add: block_def)
  next
    case (Suc j)
    then have "block C j (concat rows) = rows ! j" using Cons by simp
    then show ?thesis using Suc Cons.prems by (simp add: block_def)
  qed
qed

lemma nth_concat_uniform:
  assumes "\<forall>r \<in> set rows. length r = C" "i < length rows" "k < C"
  shows "concat rows ! (i * C + k) = (rows ! i ! k :: real)"
proof -
  have "Suc i * C \<le> length rows * C" using assms(2) by (intro mult_le_mono1) simp
  moreover have "length (concat rows) = length rows * C"
    using assms(1) by (induction rows) auto
  ultimately have "i * C + k < length (concat rows)" using assms(3) by simp
  then have "block C i (concat rows) ! k = concat rows ! (i * C + k)"
    using assms(3) by (intro block_nth)
  then show ?thesis using block_concat_uniform [OF assms(1,2)] by simp
qed

lemma pixel_index_less:
  assumes "r < H" "c < (W::nat)"
  shows "r * W + c < H * W"
proof -
  have "r * W + c < Suc r * W" using assms(2) by simp
  also have "\<dots> \<le> H * W" using assms(1) by (intro mult_le_mono1) simp
  finally show ?thesis .
qed

lemma checker_index_pos:
  assumes "width \<noteq> 0"
  shows "checker_index i width = (int i div width) mod 2"
proof -
  have "int i mod (width * 2) = width * (int i div width mod 2) + int i mod width"
    by (rule zmod_zmult2_eq) simp
  then have "(int i mod (2 * width)) div width
               = (width * (int i div width mod 2) + int i mod width) div width"
    by (simp add: mult.commute)
  also have "\<dots> = int i div width mod 2"
    using assms by simp
  finally show ?thesis by (simp add: checker_index_def)
qed

lemma checker_pos:
  assumes "width \<noteq> 0"
  shows "checker dark light width r c
           = (if (int r div width) mod 2 \<noteq> (int c div width) mod 2 then light else dark)"
proof -
  have "(a mod 2 \<noteq> 0) \<noteq> (b mod 2 \<noteq> 0) \<longleftrightarrow> a mod 2 \<noteq> b mod 2" for a b :: int
    by presburger
  then show ?thesis using assms by (simp add: checker_def checker_index_pos)
qed

text \<open>The elements of the result of matte, pixel by pixel in row-major order.\<close>

lemma matte_rows:
  assumes wfv: "wf_tensor vis" and wfa: "wf_tensor acc"
    and sv: "shape vis = [H, W, C]" and sa: "shape acc = [H, W]"
    and w: "width \<noteq> 0"
  shows "matte vis acc dark light width
           = Inr \<lparr>shape = [H, W, C],
                  data = concat (map (\<lambda>i. map (\<lambda>x. x * data acc ! i
                                      + checker dark light width (i div W) (i mod W)
                                        * (1 - data acc ! i))
                                    (block C i (data vis))) [0..<H * W])\<rparr>"
proof -
  define bgd where "bgd = concat (map (\<lambda>r. map (\<lambda>c. checker dark light width r c) [0..<W])
                                      [0..<H])"
  have lv: "length (data vis) = prod_list [H, W] * C"
    using wfv sv by (simp add: wf_tensor_def)
  have la: "length (data acc) = prod_list [H, W]"
    using wfa sa by (simp add: wf_tensor_def)
  have lbg: "length bgd = H * W"
    by (simp add: bgd_def length_concat comp_def sum_list_triv)
  have bgn: "bgd ! i = checker dark light width (i div W) (i mod W)" if "i < H * W" for i
  proof -
    have W: "0 < W" using that by (cases W) auto
    have r: "i div W < H" using that W by (simp add: less_mult_imp_div_less)
    have "bgd ! ((i div W) * W + i mod W)
            = map (\<lambda>r. map (\<lambda>c. checker dark light width r c) [0..<W]) [0..<H]
                ! (i div W) ! (i mod W)"
      using r W unfolding bgd_def by (intro nth_concat_uniform) auto
    then show ?thesis using r W by simp
  qed
  define fgd where "fgd = concat (map (\<lambda>i. map (\<lambda>x. x * data acc ! i) (block C i (data vis)))
                                      [0..<H * W])"
  have fg: "broadcast_op (*) vis (unsqueeze 2 acc) = Inr \<lparr>shape = [H, W, C], data = fgd\<rparr>"
  proof -
    have "broadcast_data (*) ([H, W] @ [C]) (data vis) ([H, W] @ [1]) (data acc) = fgd"
      using lv la unfolding fgd_def by (subst broadcast_data_trailing) simp_all
    moreover have "broadcast_shape ([H, W] @ [C]) ([H, W] @ [1]) = Some ([H, W] @ [C])"
      by (rule broadcast_shape_trailing)
    ultimately show ?thesis
      by (simp add: broadcast_op_def unsqueeze_def sv sa pad_shape_def)
  qed
  define backd where "backd = map2 (*) bgd (map (\<lambda>a. 1 - a) (data acc))"
  have bk: "broadcast_op (*) \<lparr>shape = [H, W], data = bgd\<rparr> (map_tensor (\<lambda>a. 1 - a) acc)
                = Inr \<lparr>shape = [H, W], data = backd\<rparr>"
  proof -
    have "broadcast_data (*) [H, W] bgd [H, W] (map (\<lambda>a. 1 - a) (data acc)) = backd"
      using lbg la unfolding backd_def by (intro broadcast_data_same) simp_all
    then show ?thesis
      by (simp add: broadcast_op_def map_tensor_def sa pad_shape_def broadcast_shape_same)
  qed
  have lback: "length backd = H * W"
    using lbg la by (simp add: backd_def)
  have lfg: "length fgd = H * W * C"
  proof -
    have "length (block C i (data vis)) = C" if "i < H * W" for i
      using lv that by (intro block_mono_length [where n = "H * W"]) simp_all
    then have "\<forall>r \<in> set (map (\<lambda>i. map (\<lambda>x. x * data acc ! i) (block C i (data vis)))
                           [0..<H * W]). length r = C"
      by auto
    then show ?thesis
      unfolding fgd_def by (subst length_concat_uniform [where n = C]) simp_all
  qed
  have out: "broadcast_op (+) \<lparr>shape = [H, W, C], data = fgd\<rparr>
               (unsqueeze 2 \<lparr>shape = [H, W], data = backd\<rparr>)
             = Inr \<lparr>shape = [H, W, C],
                    data = concat (map (\<lambda>i. map (\<lambda>x. x + backd ! i) (block C i fgd))
                                  [0..<H * W])\<rparr>"
  proof -
    have "broadcast_data (+) ([H, W] @ [C]) fgd ([H, W] @ [1]) backd
            = concat (map (\<lambda>i. map (\<lambda>x. x + backd ! i) (block C i fgd)) [0..<prod_list [H, W]])"
      using lfg lback by (intro broadcast_data_trailing) simp_all
    moreover have "broadcast_shape ([H, W] @ [C]) ([H, W] @ [1]) = Some ([H, W] @ [C])"
      by (rule broadcast_shape_trailing)
    ultimately show ?thesis
      by (simp add: broadcast_op_def unsqueeze_def pad_shape_def)
  qed
  have rows: "map (\<lambda>x. x + backd ! i) (block C i fgd)
              = map (\<lambda>x. x * data acc ! i
                          + checker dark light width (i div W) (i mod W) * (1 - data acc ! i))
                  (block C i (data vis))" if i: "i < H * W" for i
  proof -
    have "block C i fgd = map (\<lambda>i. map (\<lambda>x. x * data acc ! i) (block C i (data vis)))
                            [0..<H * W] ! i"
      unfolding fgd_def
    proof (rule block_concat_uniform)
      show "\<forall>r \<in> set (map (\<lambda>i. map (\<lambda>x. x * data acc ! i) (block C i (data vis)))
                           [0..<H * W]). length r = C"
        using lv by (auto intro!: block_mono_length [where n = "H * W"])
      show "i < length (map (\<lambda>i. map (\<lambda>x. x * data acc ! i) (block C i (data vis)))
                          [0..<H * W])"
        using i by simp
    qed
    then have "block C i fgd = map (\<lambda>x. x * data acc ! i) (block C i (data vis))"
      using i by simp
    moreover have "backd ! i = checker dark light width (i div W) (i mod W)
                                 * (1 - data acc ! i)"
      using i lbg la by (simp add: backd_def bgn)
    ultimately show ?thesis by simp
  qed
  have "matte vis acc dark light width
          = Inr \<lparr>shape = [H, W, C],
                 data = concat (map (\<lambda>i. map (\<lambda>x. x + backd ! i) (block C i fgd))
                               [0..<H * W])\<rparr>"
    using w fg bk out by (simp add: matte_def sa Let_def bgd_def)
  also have "concat (map (\<lambda>i. map (\<lambda>x. x + backd ! i) (block C i fgd)) [0..<H * W])
             = concat (map (\<lambda>i. map (\<lambda>x. x * data acc ! i
                                      + checker dark light width (i div W) (i mod W)
                                        * (1 - data acc ! i))
                                    (block C i (data vis))) [0..<H * W])"
    using rows by (intro arg_cong [where f = concat]) (rule map_cong [OF refl], simp)
  finally show ?thesis .
qed

text \<open>
  Claim C2, as amended. For an image \<open>vis\<close> of shape \<open>[H, W, C]\<close>, a weight map \<open>acc\<close>
  of shape \<open>[H, W]\<close> and a tile width other than zero, \<^verbatim>\<open>matte\<close> returns the image of shape
  \<open>[H, W, C]\<close> with \<open>vis * acc + background * (1 - acc)\<close> at every pixel and channel,
  where the background at pixel \<open>(r, c)\<close> is light exactly when \<open>(r div width) mod 2\<close> and
  \<open>(c div width) mod 2\<close> differ (their exclusive or is true) and dark otherwise; with
  \<open>acc\<close> identically 1 the result is \<open>vis\<close>, with \<open>acc\<close> identically 0 it is the
  checkerboard. The claim has the two colours the other way round.
\<close>

theorem matte_checkerboard:
  assumes wfv: "wf_tensor vis" and wfa: "wf_tensor acc"
    and sv: "shape vis = [H, W, C]" and sa: "shape acc = [H, W]"
    and w: "width \<noteq> 0"
  shows "\<exists>out. matte vis acc dark light width = Inr out
           \<and> shape out = [H, W, C] \<and> wf_tensor out
           \<and> (\<forall>r < H. \<forall>c < W. \<forall>k < C.
                 at3 out r c k
                   = at3 vis r c k * at2 acc r c
                     + (if (int r div width) mod 2 \<noteq> (int c div width) mod 2
                        then light else dark) * (1 - at2 acc r c))
           \<and> ((\<forall>a \<in> set (data acc). a = 1) \<longrightarrow> out = vis)
           \<and> ((\<forall>a \<in> set (data acc). a = 0) \<longrightarrow>
                (\<forall>r < H. \<forall>c < W. \<forall>k < C.
                   at3 out r c k
                     = (if (int r div width) mod 2 \<noteq> (int c div width) mod 2
                        then light else dark)))"
proof -
  define h where "h = (\<lambda>i x. x * data acc ! i
                             + checker dark light width (i div W) (i mod W)
                               * (1 - data acc ! i))"
  define rows where "rows = map (\<lambda>i. map (h i) (block C i (data vis))) [0..<H * W]"
  define out where "out = \<lparr>shape = [H, W, C], data = concat rows\<rparr>"
  have lv: "length (data vis) = H * W * C"
    using wfv sv by (simp add: wf_tensor_def)
  have la: "length (data acc) = H * W"
    using wfa sa by (simp add: wf_tensor_def)
  have ret: "matte vis acc dark light width = Inr out"
    using matte_rows [OF wfv wfa sv sa, of width dark light] w
    by (simp add: out_def rows_def h_def)
  have lrows: "\<forall>r \<in> set rows. length r = C"
    using lv by (auto simp: rows_def intro!: block_mono_length [where n = "H * W"])
  have wfo: "wf_tensor out"
    using length_concat_uniform [OF lrows] by (simp add: wf_tensor_def out_def rows_def)
  have elem: "at3 out r c k
                = at3 vis r c k * at2 acc r c
                  + (if (int r div width) mod 2 \<noteq> (int c div width) mod 2
                     then light else dark) * (1 - at2 acc r c)"
    if r: "r < H" and c: "c < W" and k: "k < C" for r c k
  proof -
    define i where "i = r * W + c"
    have i: "i < H * W" unfolding i_def using r c by (rule pixel_index_less)
    have idiv: "i div W = r" and imod: "i mod W = c" using c by (simp_all add: i_def)
    have "Suc i * C \<le> H * W * C" using i by (intro mult_le_mono1) simp
    then have ik: "i * C + k < length (data vis)" using k lv by simp
    have "at3 out r c k = concat rows ! (i * C + k)"
      by (simp add: at3_def out_def i_def)
    also have "\<dots> = rows ! i ! k"
      using lrows i k by (intro nth_concat_uniform) (simp_all add: rows_def)
    also have "\<dots> = h i (block C i (data vis) ! k)"
      using i k lv block_mono_length [of "data vis" "H * W" C i] by (simp add: rows_def)
    also have "block C i (data vis) ! k = data vis ! (i * C + k)"
      using k ik by (rule block_nth)
    finally have e: "at3 out r c k = h i (data vis ! (i * C + k))" .
    have "h i x = x * at2 acc r c
                  + (if (int r div width) mod 2 \<noteq> (int c div width) mod 2
                     then light else dark) * (1 - at2 acc r c)" for x
      unfolding h_def idiv imod checker_pos [OF w] by (simp add: at2_def sa i_def)
    moreover have "data vis ! (i * C + k) = at3 vis r c k"
      by (simp add: at3_def sv i_def)
    ultimately show ?thesis using e by simp
  qed
  have ones: "out = vis" if "\<forall>a \<in> set (data acc). a = 1"
  proof -
    have "map (h i) (block C i (data vis)) = block C i (data vis)" if "i < H * W" for i
    proof -
      have "data acc ! i = 1" using \<open>\<forall>a \<in> set (data acc). a = 1\<close> that la by simp
      then show ?thesis by (simp add: h_def)
    qed
    then have "rows = map (\<lambda>i. block C i (data vis)) [0..<H * W]"
      by (simp add: rows_def)
    then have "concat rows = data vis"
      using lv by (simp add: concat_blocks)
    then show ?thesis using sv by (simp add: out_def)
  qed
  have zeros: "at3 out r c k
                 = (if (int r div width) mod 2 \<noteq> (int c div width) mod 2 then light else dark)"
    if z: "\<forall>a \<in> set (data acc). a = 0" and r: "r < H" and c: "c < W" and k: "k < C"
    for r c k
  proof -
    have "r * W + c < length (data acc)" using la pixel_index_less [OF r c] by simp
    then have "at2 acc r c = 0" using z by (simp add: at2_def sa)
    then show ?thesis using elem [OF r c k] by simp
  qed
  show ?thesis
    using ret wfo elem ones zeros by (intro exI [of _ out]) (simp add: out_def)
qed

text \<open>
  A row of two pixels with tile width 1: the first is transparent and shows the dark
  tile, the second is opaque and keeps its value.
\<close>

theorem matte_checkerboard_witness:
  "matte \<lparr>shape = [1, 2, 1], data = [1 / 2, 1 / 4]\<rparr> \<lparr>shape = [1, 2], data = [0, 1]\<rparr>
     default_dark default_light 1
   = Inr \<lparr>shape = [1, 2, 1], data = [default_dark, 1 / 4]\<rparr>"
proof -
  let ?vis = "\<lparr>shape = [1, 2, 1], data = [1 / 2, 1 / 4]\<rparr>"
  let ?acc = "\<lparr>shape = [1, 2], data = [0, 1]\<rparr>"
  from matte_checkerboard [of ?vis ?acc 1 2 1 1 default_dark default_light]
  obtain out where
    ret: "matte ?vis ?acc default_dark default_light 1 = Inr out"
    and sh: "shape out = [1, 2, 1]" and wf: "wf_tensor out"
    and el: "\<forall>r < 1. \<forall>c < 2. \<forall>k < 1.
               at3 out r c k = at3 ?vis r c k * at2 ?acc r c
                 + (if (int r div 1) mod 2 \<noteq> (int c div 1) mod 2
                    then default_light else default_dark) * (1 - at2 ?acc r c)"
    by (auto simp: wf_tensor_def)
  from el [rule_format, of 0 0 0] el [rule_format, of 0 1 0]
  have "at3 out 0 0 0 = default_dark" "at3 out 0 1 0 = 1 / 4"
    by (simp_all add: at3_def at2_def)
  then have n: "data out ! 0 = default_dark" "data out ! 1 = 1 / 4"
    using sh by (simp_all add: at3_def)
  have "length (data out) = 2" using wf sh by (simp add: wf_tensor_def)
  then obtain a b where ab: "data out = [a, b]"
    by (auto simp: length_Suc_conv numeral_2_eq_2)
  with n have "data out = [default_dark, 1 / 4]" by simp
  then have "out = \<lparr>shape = [1, 2, 1], data = [default_dark, 1 / 4]\<rparr>"
    using sh by (cases out) simp
  then show ?thesis using ret by simp
qed

text \<open>
  Claim C2 as stated fails at pixel \<open>(0, 0)\<close> with the default arguments: the tile
  parity of row 0 and of column 0 is 0 (exclusive or false), the claim makes the tile
  light, and a fully transparent pixel shows the dark value \<open>0.8\<close>.
\<close>

theorem matte_polarity_counterexample:
  "matte \<lparr>shape = [1, 1, 1], data = [1 / 2]\<rparr> \<lparr>shape = [1, 1], data = [0]\<rparr>
     default_dark default_light default_width
   = Inr \<lparr>shape = [1, 1, 1], data = [default_dark]\<rparr>
   \<and> default_dark \<noteq> default_light
   \<and> checker_index 0 default_width = 0"
  by (simp add: matte_def broadcast_op_def unsqueeze_def map_tensor_def pad_shape_def
      broadcast_dim_def block_def bidx_def checker_def checker_index_def
      default_dark_def default_light_def default_width_def)

subsection \<open>Weighted percentiles\<close>

lemma argsort_values: "map ((!) xs) (argsort xs) = sort xs"
proof -
  define ps where "ps = zip xs [0..<length xs]"
  have fst_ps: "map fst ps = xs" by (simp add: ps_def)
  have "\<forall>p \<in> set ps. xs ! snd p = fst p"
    by (auto simp: ps_def set_zip)
  then have "\<forall>p \<in> set (sort_key fst ps). xs ! snd p = fst p" by simp
  then have "map ((!) xs) (map snd (sort_key fst ps)) = map fst (sort_key fst ps)"
    by simp
  also have "\<dots> = sort (map fst ps)"
    by (rule properties_for_sort [symmetric]) simp_all
  finally show ?thesis by (simp add: argsort_def ps_def [symmetric] fst_ps)
qed

lemma argsort_perm: "mset (argsort xs) = mset [0..<length xs]"
proof -
  define ps where "ps = zip xs [0..<length xs]"
  have "mset (map snd (sort_key fst ps)) = mset (map snd ps)"
    by (simp only: mset_map mset_sort)
  moreover have "map snd ps = [0..<length xs]" by (simp add: ps_def)
  ultimately show ?thesis by (simp only: argsort_def ps_def)
qed

lemma argsort_sorted:
  assumes "sorted xs"
  shows "argsort xs = [0..<length xs]"
proof -
  have "sorted (map fst (zip xs [0..<length xs]))" using assms by simp
  then have "sort_key fst (zip xs [0..<length xs]) = zip xs [0..<length xs]"
    by (rule sort_key_id_if_sorted)
  then show ?thesis by (simp add: argsort_def)
qed

lemma sort_with_weights_sorted:
  assumes "sorted xs" "length ws = length xs"
  shows "sort_with_weights xs ws = Inr (xs, ws)"
proof -
  have "map (\<lambda>i. xs ! i) [0..<length xs] = xs" by (rule map_nth)
  moreover have "map (\<lambda>i. ws ! (i mod length ws)) [0..<length xs] = ws"
    using assms(2) by (intro nth_equalityI) simp_all
  ultimately show ?thesis
    using assms by (auto simp: sort_with_weights_def argsort_sorted Let_def)
qed

lemma length_argsort: "length (argsort xs) = length xs"
  by (simp add: argsort_def)

lemma sort_with_weights_empty_weight:
  "x \<noteq> [] \<Longrightarrow> sort_with_weights x [] = Inl RuntimeError"
  using length_argsort [of x] by (auto simp: sort_with_weights_def Let_def)

lemma cumsum_uniform10:
  "cumsum (replicate 10 w) = [w, 2 * w, 3 * w, 4 * w, 5 * w, 6 * w, 7 * w, 8 * w, 9 * w, 10 * w]"
  by (simp add: cumsum_def numeral_eq_Suc)

text \<open>
  Claim C3. Without \<^verbatim>\<open>assume_sorted\<close> and for a non-empty weight array of any length,
  the sorting step does not fail: it returns the values in ascending order, which are
  the values read through the permutation \<open>argsort\<close>, and the weights read through the
  same permutation with every index taken modulo the length of the weight array, so
  that every read is in range; \<^verbatim>\<open>weighted_percentile\<close> then continues as it would on
  these two arrays under \<^verbatim>\<open>assume_sorted\<close>. (By \<open>sort_with_weights_empty_weight\<close> an
  empty weight array with non-empty values raises: the remainder by zero.)
\<close>

theorem sort_with_weights_wraparound:
  assumes "data weight \<noteq> []"
  shows "sort_with_weights (data x) (data weight)
           = Inr (sort (data x),
                  map (\<lambda>i. data weight ! (i mod length (data weight))) (argsort (data x)))
       \<and> sort (data x) = map ((!) (data x)) (argsort (data x))
       \<and> mset (argsort (data x)) = mset [0..<length (data x)]
       \<and> (\<forall>i \<in> set (argsort (data x)). i mod length (data weight) < length (data weight))
       \<and> weighted_percentile x weight ps False
           = weighted_percentile
               \<lparr>shape = [length (data x)], data = sort (data x)\<rparr>
               \<lparr>shape = [length (data x)],
                data = map (\<lambda>i. data weight ! (i mod length (data weight)))
                         (argsort (data x))\<rparr>
               ps True"
  using assms argsort_values [of "data x"] argsort_perm [of "data x"]
  by (simp add: sort_with_weights_def weighted_percentile_def Let_def)

text \<open>Six values against two weights: the weights are read as \<open>weight[i mod 2]\<close>.\<close>

theorem sort_with_weights_wraparound_witness:
  "sort_with_weights [3, 1, 2, 1, 0, 5] [10, 20]
     = Inr ([0, 1, 1, 2, 3, 5], [10, 20, 20, 10, 10, 20])
   \<and> weighted_percentile \<lparr>shape = [2, 3], data = [3, 1, 2, 1, 0, 5]\<rparr>
        \<lparr>shape = [2], data = [10, 20]\<rparr> [50] False
     = weighted_percentile \<lparr>shape = [6], data = [0, 1, 1, 2, 3, 5]\<rparr>
        \<lparr>shape = [6], data = [10, 20, 20, 10, 10, 20]\<rparr> [50] True"
proof -
  have a: "map (\<lambda>i. [10, 20 :: real] ! (i mod length [10, 20 :: real]))
             (argsort [3, 1, 2, 1, 0, 5]) = [10, 20, 20, 10, 10, 20]"
    by code_simp
  have s: "sort [3, 1, 2, 1, 0, 5 :: real] = [0, 1, 1, 2, 3, 5]"
    by simp
  have l: "length [3, 1, 2, 1, 0, 5 :: real] = 6"
    by simp
  have ne: "data \<lparr>shape = [2], data = [10, 20]\<rparr> \<noteq> []"
    by simp
  show ?thesis
    using sort_with_weights_wraparound
      [OF ne, of "\<lparr>shape = [2, 3], data = [3, 1, 2, 1, 0, 5]\<rparr>" "[50]"]
    unfolding tensor.simps a s l by blast
qed

text \<open>
  Claim C1, as amended. For the values \<open>0, 1, \<dots>, 9\<close> with equal positive weights and
  \<open>p = 50\<close>, \<^verbatim>\<open>weighted_percentile\<close> returns 4: half of the total weight is reached
  exactly at the fifth value, and the interpolation of the cumulative weights against
  the values is on a knot. The claim gives 4.5, the unweighted percentile of numpy.
\<close>

theorem weighted_percentile_uniform_median:
  assumes "0 < w"
  shows "weighted_percentile \<lparr>shape = [10], data = [0, 1, 2, 3, 4, 5, 6, 7, 8, 9]\<rparr>
           \<lparr>shape = [10], data = replicate 10 w\<rparr> [50] False = Inr [4]"
proof -
  have sw: "sort_with_weights [0, 1, 2, 3, 4, 5, 6, 7, 8, 9] (replicate 10 w)
              = Inr ([0, 1, 2, 3, 4, 5, 6, 7, 8, 9], replicate 10 w)"
    by (rule sort_with_weights_sorted) simp_all
  have "interp1 (50 * (10 * w) / 100)
          [w, 2 * w, 3 * w, 4 * w, 5 * w, 6 * w, 7 * w, 8 * w, 9 * w, 10 * w]
          [0, 1, 2, 3, 4, 5, 6, 7, 8, 9] = 4"
    using assms by (simp add: interp1_def)
  then show ?thesis
    by (simp add: weighted_percentile_def sw cumsum_uniform10 interp_def)
qed

text \<open>The amended claim for the weights \<open>1 / 10\<close>.\<close>

theorem weighted_percentile_uniform_median_witness:
  "weighted_percentile \<lparr>shape = [10], data = [0, 1, 2, 3, 4, 5, 6, 7, 8, 9]\<rparr>
     \<lparr>shape = [10], data = replicate 10 (1 / 10)\<rparr> [50] False = Inr [4]"
  using weighted_percentile_uniform_median [of "1 / 10"] by simp

text \<open>Claim C1 as stated fails for the weights 1: the result is 4, not 4.5.\<close>

theorem weighted_percentile_uniform_counterexample:
  "weighted_percentile \<lparr>shape = [10], data = [0, 1, 2, 3, 4, 5, 6, 7, 8, 9]\<rparr>
     \<lparr>shape = [10], data = replicate 10 1\<rparr> [50] False = Inr [4]
   \<and> (Inr [4] :: error + real list) \<noteq> Inr [45 / 10]"
proof -
  have "weighted_percentile \<lparr>shape = [10], data = [0, 1, 2, 3, 4, 5, 6, 7, 8, 9]\<rparr>
     \<lparr>shape = [10], data = replicate 10 1\<rparr> [50] False = Inr [4]"
    by code_simp
  then show ?thesis by simp
qed

subsection \<open>Colormap visualisation\<close>

lemma length_cumsum_from: "length (cumsum_from a xs) = length xs"
  by (induction xs arbitrary: a) simp_all

lemma length_cumsum: "length (cumsum xs) = length xs"
  by (simp add: cumsum_def length_cumsum_from)

text \<open>
  Whether \<open>weighted_percentile\<close> fails does not depend on the percentiles asked for, and
  it returns one value for each of them.
\<close>

lemma weighted_percentile_cases:
  "(\<exists>e. \<forall>ps. weighted_percentile x weight ps srt = Inl e)
   \<or> (\<exists>g. \<forall>ps. weighted_percentile x weight ps srt = Inr (map g ps))"
proof (cases "if srt then Inr (data x, data weight)
              else sort_with_weights (data x) (data weight)")
  case (Inl e)
  then have "\<forall>ps. weighted_percentile x weight ps srt = Inl e"
    by (simp add: weighted_percentile_def)
  then show ?thesis by blast
next
  case (Inr p)
  obtain xs ws where p: "p = (xs, ws)" by (cases p)
  show ?thesis
  proof (cases "cumsum ws = [] \<or> length (cumsum ws) \<noteq> length xs")
    case True
    then have "\<forall>ps. weighted_percentile x weight ps srt
                 = Inl (if cumsum ws = [] then IndexError else ValueError)"
      using Inr p by (auto simp: weighted_percentile_def Let_def interp_def)
    then show ?thesis by blast
  next
    case False
    then have "\<forall>ps. weighted_percentile x weight ps srt
                 = Inr (map (\<lambda>q. interp1 (q * last (cumsum ws) / 100) (cumsum ws) xs) ps)"
      using Inr p by (simp add: weighted_percentile_def Let_def interp_def comp_def)
    then show ?thesis by blast
  qed
qed

lemma weighted_percentile_returns:
  assumes "data x \<noteq> []" "data weight \<noteq> []"
  shows "\<exists>a b. weighted_percentile x weight [p, q] False = Inr [a, b]"
proof -
  define xs where "xs = map (\<lambda>i. data x ! i) (argsort (data x))"
  define ws where "ws = map (\<lambda>i. data weight ! (i mod length (data weight))) (argsort (data x))"
  have sw: "sort_with_weights (data x) (data weight) = Inr (xs, ws)"
    using assms(2) by (simp add: sort_with_weights_def Let_def xs_def ws_def)
  have l: "length (cumsum ws) = length xs"
    by (simp add: length_cumsum xs_def ws_def)
  have "length xs = length (data x)" by (simp add: xs_def length_argsort)
  then have "xs \<noteq> []" using assms(1) by auto
  then have ne: "cumsum ws \<noteq> []" using l by auto
  have "weighted_percentile x weight [p, q] False
          = Inr [interp1 (p * last (cumsum ws) / 100) (cumsum ws) xs,
                 interp1 (q * last (cumsum ws) / 100) (cumsum ws) xs]"
    using ne l by (simp add: weighted_percentile_def sw Let_def interp_def)
  then show ?thesis by blast
qed

text \<open>
  Claim C7. The claim describes the wrap that the docstring (``mod the normalized value
  by modulus'') and the comment (``Wrap the values around if requested'') announce, and
  the code does not perform it: with a modulus that is not zero the call reaches
  \<^verbatim>\<open>torch.mod\<close>, which the \<^verbatim>\<open>torch\<close> module does not have. Such a call gives the same
  outcome for all \<open>lo\<close>, \<open>hi\<close> and \<open>percentile\<close>, and that outcome is never a result; for a
  non-empty value and a non-empty weight it is \<open>AttributeError\<close>. In the particular case of
  the claim (shape \<open>[H, W, 3]\<close>, elements in \<open>[0, 1)\<close>, no colormap, identity curve,
  modulus 1, no matting) the call therefore does not return the value.
\<close>

theorem visualize_cmap_modulus_raises:
  assumes "m \<noteq> 0"
  shows "visualize_cmap value weight colormap lo hi percentile curve_fn (Some m) mb
           = visualize_cmap value weight colormap lo' hi' percentile' curve_fn (Some m) mb
       \<and> (\<forall>out. visualize_cmap value weight colormap lo hi percentile curve_fn (Some m) mb
                   \<noteq> Inr out)
       \<and> (data value \<noteq> [] \<and> data weight \<noteq> []
          \<longrightarrow> visualize_cmap value weight colormap lo hi percentile curve_fn (Some m) mb
                = Inl AttributeError)"
proof (intro conjI allI impI)
  have wp: "(\<exists>e. \<forall>ps. weighted_percentile value weight ps False = Inl e)
            \<or> (\<exists>g. \<forall>ps. weighted_percentile value weight ps False = Inr (map g ps))"
    by (rule weighted_percentile_cases)
  then show "visualize_cmap value weight colormap lo hi percentile curve_fn (Some m) mb
          = visualize_cmap value weight colormap lo' hi' percentile' curve_fn (Some m) mb"
  proof (elim disjE exE)
    fix e assume "\<forall>ps. weighted_percentile value weight ps False = Inl e"
    then show ?thesis by (simp add: visualize_cmap_def)
  next
    fix g assume "\<forall>ps. weighted_percentile value weight ps False = Inr (map g ps)"
    then show ?thesis
      using assms by (simp add: visualize_cmap_def truthy_def wrap_values_def Let_def)
  qed
  fix out
  from wp show "visualize_cmap value weight colormap lo hi percentile curve_fn (Some m) mb
                  \<noteq> Inr out"
  proof (elim disjE exE)
    fix e assume "\<forall>ps. weighted_percentile value weight ps False = Inl e"
    then show ?thesis by (simp add: visualize_cmap_def)
  next
    fix g assume "\<forall>ps. weighted_percentile value weight ps False = Inr (map g ps)"
    then show ?thesis
      using assms by (simp add: visualize_cmap_def truthy_def wrap_values_def Let_def)
  qed
next
  assume a: "data value \<noteq> [] \<and> data weight \<noteq> []"
  obtain lo_auto hi_auto where
    wp: "weighted_percentile value weight [50 - percentile / 2, 50 + percentile / 2] False
           = Inr [lo_auto, hi_auto]"
    using weighted_percentile_returns [of "value" weight] a by blast
  show "visualize_cmap value weight colormap lo hi percentile curve_fn (Some m) mb
          = Inl AttributeError"
    using assms by (simp add: visualize_cmap_def wp truthy_def wrap_values_def Let_def)
qed

text \<open>
  Two RGB pixels with elements in \<open>[0, 1)\<close>, no colormap, the identity curve, modulus 1
  and no matting: the call raises \<open>AttributeError\<close> where the claim expects the value.
\<close>

theorem visualize_cmap_modulus_raises_witness:
  "visualize_cmap \<lparr>shape = [1, 2, 3], data = [1 / 2, 1 / 4, 0, 3 / 4, 7 / 8, 1 / 8]\<rparr>
     \<lparr>shape = [1, 2], data = [1, 1]\<rparr> None None None default_percentile identity_curve
     (Some 1) False
   = Inl AttributeError"
proof -
  let ?val = "\<lparr>shape = [1, 2, 3], data = [1 / 2, 1 / 4, 0, 3 / 4, 7 / 8, 1 / 8]\<rparr>"
  let ?weight = "\<lparr>shape = [1, 2], data = [1, 1]\<rparr>"
  have one: "(1::real) \<noteq> 0" by simp
  have a: "data ?val \<noteq> [] \<and> data ?weight \<noteq> []" by simp
  show ?thesis
    using visualize_cmap_modulus_raises [OF one, of ?val ?weight None None None
        default_percentile identity_curve False] a
    by blast
qed

text \<open>
  Claim C10. \<^verbatim>\<open>lo or (lo_auto - eps)\<close> and \<^verbatim>\<open>hi or (hi_auto + eps)\<close> test the bounds
  for truth: a call with an explicit bound 0 returns exactly what the call without
  that bound returns, whatever the other arguments are.
\<close>

theorem visualize_cmap_zero_bound_ignored:
  "visualize_cmap value weight colormap (Some 0) hi percentile curve_fn modulus mb
     = visualize_cmap value weight colormap None hi percentile curve_fn modulus mb
   \<and> visualize_cmap value weight colormap lo (Some 0) percentile curve_fn modulus mb
     = visualize_cmap value weight colormap lo None percentile curve_fn modulus mb"
  by (simp add: visualize_cmap_def py_or_def cong: sum.case_cong list.case_cong)

subsection \<open>Ray visualisation\<close>

lemma length_all_indices: "length (all_indices s) = prod_list s"
proof (induction s)
  case Nil
  then show ?case by simp
next
  case (Cons n s)
  have "\<forall>r \<in> set (map (\<lambda>i. map ((#) i) (all_indices s)) [0..<n]). length r = prod_list s"
    using Cons by auto
  then have "length (concat (map (\<lambda>i. map ((#) i) (all_indices s)) [0..<n]))
               = length (map (\<lambda>i. map ((#) i) (all_indices s)) [0..<n]) * prod_list s"
    by (rule length_concat_uniform)
  then show ?case by simp
qed

lemma wf_transpose_T: "wf_tensor (transpose_T t)"
  by (simp add: wf_tensor_def transpose_T_def length_all_indices)

lemma resample_ray_wf:
  assumes "resample_ray resample accumulate dist_vis d w r = Inr v"
  shows "wf_tensor (fst v) \<and> wf_tensor (snd v)"
  using assms
  by (auto simp: resample_ray_def wf_transpose_T split: sum.splits prod.splits if_splits)

lemma resample_rays_wf:
  assumes "resample_rays resample accumulate dist_vis rays = Inr vs"
  shows "\<forall>v \<in> set vs. wf_tensor (fst v) \<and> wf_tensor (snd v)"
  using assms
proof (induction rays arbitrary: vs)
  case Nil
  then show ?case by simp
next
  case (Cons ray rays)
  obtain d w r where ray: "ray = (d, w, r)" by (cases ray)
  from Cons.prems obtain v vs' where
    v: "resample_ray resample accumulate dist_vis d w r = Inr v"
    and vs': "resample_rays resample accumulate dist_vis rays = Inr vs'"
    and vs: "vs = v # vs'"
    by (auto simp: ray split: sum.splits)
  show ?case using resample_ray_wf [OF v] Cons.IH [OF vs'] by (simp add: vs)
qed

lemma level_rays_wf:
  assumes "level_rays resample accumulate dist_vis lvl = Inr vs"
  shows "\<forall>v \<in> set vs. wf_tensor (fst v) \<and> wf_tensor (snd v)"
  using assms resample_rays_wf
  by (auto simp: level_rays_def split: prod.splits sum.splits)

lemma stack0_Inr:
  assumes "stack0 ts = Inr t"
  shows "ts \<noteq> [] \<and> (\<forall>u \<in> set ts. shape u = shape (hd ts))
         \<and> shape t = length ts # shape (hd ts) \<and> data t = concat (map data ts)"
  using assms by (cases ts) (auto simp: stack0_def split: if_splits)

lemma stack1_Inr:
  assumes "stack1 ts = Inr t"
  shows "\<exists>n rest. ts \<noteq> [] \<and> (\<forall>u \<in> set ts. shape u = n # rest)
           \<and> shape t = n # length ts # rest
           \<and> data t = concat (map (\<lambda>k. concat (map (\<lambda>u. block (prod_list rest) k (data u)) ts))
                                 [0..<n])"
proof (cases ts)
  case Nil
  then show ?thesis using assms by (simp add: stack1_def)
next
  case (Cons u us)
  with assms obtain n rest where "shape u = n # rest"
    by (cases "shape u") (auto simp: stack1_def split: if_splits)
  then show ?thesis
    using assms Cons by (auto simp: stack1_def split: if_splits intro!: exI [of _ n] exI [of _ rest])
qed

lemma process_levels_Inr:
  assumes "process_levels resample accumulate dist_vis lvls = Inr levels"
  shows "\<forall>l \<in> set levels.
           stack0 (map fst (fst l)) = Inr (fst (snd l))
         \<and> stack0 (map snd (fst l)) = Inr (snd (snd l))
         \<and> (\<forall>v \<in> set (fst l). wf_tensor (fst v) \<and> wf_tensor (snd v))"
  using assms
proof (induction lvls arbitrary: levels)
  case Nil
  then show ?case by simp
next
  case (Cons lvl lvls)
  from Cons.prems obtain rays vis_rs vis_ws rest where
    rays: "level_rays resample accumulate dist_vis lvl = Inr rays"
    and rs: "stack0 (map fst rays) = Inr vis_rs"
    and ws: "stack0 (map snd rays) = Inr vis_ws"
    and rest: "process_levels resample accumulate dist_vis lvls = Inr rest"
    and levels: "levels = (rays, vis_rs, vis_ws) # rest"
    by (auto split: sum.splits)
  show ?case
    using level_rays_wf [OF rays] rs ws Cons.IH [OF rest] by (simp add: levels)
qed

lemma alpha_structure:
  assumes lv: "\<forall>l \<in> set levels. stack0 (map snd (fst l)) = Inr (snd (snd l))
                 \<and> (\<forall>v \<in> set (fst l). wf_tensor (snd v))"
    and st: "stack1 (map (\<lambda>l. snd (snd l)) levels) = Inr alpha"
  shows "\<exists>K rest. 0 < K \<and> levels \<noteq> [] \<and> shape alpha = K # length levels # rest
           \<and> (\<forall>l \<in> set levels. length (fst l) = K
                 \<and> (\<forall>v \<in> set (fst l). length (data (snd v)) = prod_list rest))
           \<and> data alpha = concat (map (\<lambda>k. concat (map (\<lambda>l. data (snd (fst l ! k))) levels))
                                    [0..<K])"
proof -
  from stack1_Inr [OF st] obtain K rest where
    ne: "levels \<noteq> []"
    and sh: "\<forall>l \<in> set levels. shape (snd (snd l)) = K # rest"
    and sa: "shape alpha = K # length levels # rest"
    and da: "data alpha = concat (map (\<lambda>k. concat (map (\<lambda>u. block (prod_list rest) k (data u))
                                         (map (\<lambda>l. snd (snd l)) levels))) [0..<K])"
    by auto
  have lvl: "length (fst l) = K
             \<and> (\<forall>v \<in> set (fst l). length (data (snd v)) = prod_list rest)
             \<and> (\<forall>k < K. block (prod_list rest) k (data (snd (snd l))) = data (snd (fst l ! k)))"
    if l: "l \<in> set levels" for l
  proof -
    from lv l have s0: "stack0 (map snd (fst l)) = Inr (snd (snd l))"
      and wf: "\<forall>v \<in> set (fst l). wf_tensor (snd v)" by auto
    from stack0_Inr [OF s0] have rne: "map snd (fst l) \<noteq> []"
      and same: "\<forall>u \<in> set (map snd (fst l)). shape u = shape (hd (map snd (fst l)))"
      and shl: "shape (snd (snd l)) = length (map snd (fst l)) # shape (hd (map snd (fst l)))"
      and dl: "data (snd (snd l)) = concat (map data (map snd (fst l)))"
      by auto
    from shl sh l have len: "length (fst l) = K" and hd: "shape (hd (map snd (fst l))) = rest"
      by auto
    have rows: "\<forall>v \<in> set (fst l). length (data (snd v)) = prod_list rest"
      using wf same hd by (auto simp: wf_tensor_def)
    have "block (prod_list rest) k (data (snd (snd l))) = data (snd (fst l ! k))" if "k < K" for k
    proof -
      have "block (prod_list rest) k (concat (map data (map snd (fst l))))
              = map data (map snd (fst l)) ! k"
        using rows that len by (intro block_concat_uniform) auto
      then show ?thesis using that len by (simp add: dl)
    qed
    then show ?thesis using len rows by blast
  qed
  obtain l0 where l0: "l0 \<in> set levels" using ne by (cases levels) auto
  from lv l0 have "stack0 (map snd (fst l0)) = Inr (snd (snd l0))" by auto
  from stack0_Inr [OF this] lvl [OF l0] have K: "0 < K" by auto
  have "concat (map (\<lambda>u. block (prod_list rest) k (data u)) (map (\<lambda>l. snd (snd l)) levels))
          = concat (map (\<lambda>l. data (snd (fst l ! k))) levels)" if "k < K" for k
    using lvl that by (intro arg_cong [where f = concat]) (simp add: comp_def)
  then have "data alpha = concat (map (\<lambda>k. concat (map (\<lambda>l. data (snd (fst l ! k))) levels))
                                   [0..<K])"
    unfolding da by (intro arg_cong [where f = concat]) (rule map_cong [OF refl], simp)
  then show ?thesis using K ne sa lvl by blast
qed

lemma concat_upt_last:
  assumes "0 < K" "\<forall>k < K. length (g k) = M"
  shows "concat (map g [0..<K]) = take ((K - 1) * M) (concat (map g [0..<K])) @ g (K - 1)"
proof -
  obtain K' where K': "K = Suc K'" using assms(1) by (cases K) auto
  have "\<forall>r \<in> set (map g [0..<K']). length r = M" using assms(2) K' by auto
  then have "length (concat (map g [0..<K'])) = K' * M"
    using length_concat_uniform [of "map g [0..<K']" M] by simp
  then show ?thesis by (simp add: K')
qed

lemma prod_list_pad_shape: "prod_list (pad_shape r s) = prod_list s"
  by (simp add: pad_shape_def)

lemma length_pad_shape: "length s \<le> r \<Longrightarrow> length (pad_shape r s) = r"
  by (simp add: pad_shape_def)

lemma prod_list_map2_mult:
  "length s = length q \<Longrightarrow> prod_list (map2 (*) s q) = prod_list s * prod_list (q::nat list)"
  by (induction s q rule: list_induct2) simp_all

lemma length_tile_data:
  assumes "length s = length q" "length xs = prod_list s"
  shows "length (tile_data s q xs) = prod_list s * prod_list q"
  using assms
proof (induction s q arbitrary: xs rule: list_induct2)
  case Nil
  then show ?case by simp
next
  case (Cons n s q qs)
  have "\<forall>r \<in> set (map (\<lambda>i. tile_data s qs (block (prod_list s) i xs)) [0..<n]).
          length r = prod_list s * prod_list qs"
  proof (clarsimp)
    fix i assume "i < n"
    then have "length (block (prod_list s) i xs) = prod_list s"
      using Cons.prems by (intro block_mono_length [where n = n]) simp_all
    then show "length (tile_data s qs (block (prod_list s) i xs)) = prod_list s * prod_list qs"
      by (rule Cons.IH)
  qed
  then have inner: "length (concat (map (\<lambda>i. tile_data s qs (block (prod_list s) i xs)) [0..<n]))
                      = n * (prod_list s * prod_list qs)"
    using length_concat_uniform
      [of "map (\<lambda>i. tile_data s qs (block (prod_list s) i xs)) [0..<n]"
          "prod_list s * prod_list qs"]
    by simp
  have "length (concat (replicate q ys)) = q * length ys" for ys :: "real list"
    by (induction q) simp_all
  then show ?case using inner by simp
qed

lemma wf_tile_tensor:
  assumes "wf_tensor t"
  shows "wf_tensor (tile_tensor dims t)"
    and "prod_list (shape (tile_tensor dims t)) = prod_list (shape t) * prod_list dims"
proof -
  define r where "r = max (length (shape t)) (length dims)"
  have l: "length (pad_shape r (shape t)) = length (pad_shape r dims)"
    by (simp add: length_pad_shape r_def)
  have x: "length (data t) = prod_list (pad_shape r (shape t))"
    using assms by (simp add: wf_tensor_def prod_list_pad_shape)
  show "prod_list (shape (tile_tensor dims t)) = prod_list (shape t) * prod_list dims"
    using l by (simp add: tile_tensor_def Let_def r_def [symmetric] prod_list_map2_mult
        prod_list_pad_shape)
  show "wf_tensor (tile_tensor dims t)"
    using l x length_tile_data [OF l x]
    by (simp add: tile_tensor_def Let_def r_def [symmetric] wf_tensor_def prod_list_map2_mult)
qed

lemma reshape_infer_Inr:
  assumes "reshape_infer rest t = Inr out"
  shows "prod_list rest \<noteq> 0 \<and> prod_list (shape t) mod prod_list rest = 0
         \<and> shape out = (prod_list (shape t) div prod_list rest) # rest \<and> data out = data t
         \<and> prod_list (shape out) = prod_list (shape t)"
  using assms by (auto simp: reshape_infer_def Let_def split: if_splits)

text \<open>
  What the tiling branch does to one array: the result ends with a row of zeros, and
  there is more than that row.
\<close>

lemma tile_pad_Inr:
  assumes tp: "tile_pad dims stride t = Inr out"
    and wf: "wf_tensor t"
    and sh: "shape t = K # L # rest'" and K: "0 < K" and L: "0 < L"
    and dpos: "0 < stride \<Longrightarrow> 0 < prod_list dims"
  shows "\<exists>n. 0 < n \<and> shape out = n # drop 2 (shape t)
           \<and> data out = take ((n - 1) * prod_list (drop 2 (shape t))) (data out)
                          @ replicate (prod_list (drop 2 (shape t))) 0"
proof -
  define rest where "rest = drop 2 (shape t)"
  define P where "P = prod_list rest"
  define tiled where "tiled = tile_tensor dims t"
  define xs where "xs = data tiled"
  define N where "N = prod_list (shape tiled)"
  from tp obtain t1 t2 where
    t1: "reshape_infer rest tiled = Inr t1"
    and t2: "reshape_infer (stride # tl (shape t1)) t1 = Inr t2"
    and t4: "reshape_infer (drop 2 (shape t2)) (cat_zero_row t2) = Inr out"
    by (auto simp: tile_pad_def rest_def tiled_def split: sum.splits)
  have lxs: "length xs = N"
    using wf_tile_tensor(1) [OF wf, of dims] by (simp add: xs_def N_def tiled_def wf_tensor_def)
  note r1 = reshape_infer_Inr [OF t1, folded P_def N_def xs_def]
  have P0: "P \<noteq> 0" and s1: "shape t1 = (N div P) # rest" and d1: "data t1 = xs"
    and n1: "prod_list (shape t1) = N"
    using r1 by blast+
  have tl1: "tl (shape t1) = rest" by (simp add: s1)
  have p2: "prod_list (stride # rest) = stride * P" by (simp add: P_def)
  note r2 = reshape_infer_Inr [OF t2, unfolded tl1 p2 n1 d1]
  have sp: "stride * P \<noteq> 0" and dv: "N mod (stride * P) = 0"
    and s2: "shape t2 = (N div (stride * P)) # stride # rest" and d2: "data t2 = xs"
    using r2 by blast+
  have "0 < prod_list (shape t)" using sh K L P0 by (simp add: P_def rest_def)
  moreover have "0 < prod_list dims" using sp dpos by simp
  ultimately have Npos: "0 < N"
    using wf_tile_tensor(2) [OF wf, of dims] by (simp add: N_def tiled_def)
  define a where "a = N div (stride * P)"
  have Na: "N = a * (stride * P)"
    using dv div_mult_mod_eq [of N "stride * P"] by (simp add: a_def)
  have apos: "0 < a" using Npos Na by (cases a) auto
  have st: "min (Suc 0) stride = Suc 0" using sp by (cases stride) auto
  define h where "h = (\<lambda>i. block (stride * P) i xs @ replicate P (0::real))"
  have s3: "shape (cat_zero_row t2) = a # (stride + 1) # rest"
    and d3: "data (cat_zero_row t2) = concat (map h [0..<a])"
    by (simp_all add: cat_zero_row_def Let_def s2 d2 st a_def h_def P_def)
  have dr2: "drop 2 (shape t2) = rest" by (simp add: s2)
  have p3: "prod_list (shape (cat_zero_row t2)) = a * (stride + 1) * P"
    by (simp add: s3 P_def algebra_simps)
  note r4 = reshape_infer_Inr [OF t4, unfolded dr2 p3 d3, folded P_def]
  have "shape out = (a * (stride + 1) * P div P) # rest" using r4 by blast
  then have so: "shape out = (a * (stride + 1)) # rest" using P0 by simp
  have do: "data out = concat (map h [0..<a])" using r4 by blast
  have lh: "\<forall>i < a. length (h i) = (stride + 1) * P"
    using lxs Na by (auto simp: h_def intro!: block_mono_length [where n = a])
  define D where "D = concat (map h [0..<a])"
  have split: "D = take ((a - 1) * ((stride + 1) * P)) D @ h (a - 1)"
    unfolding D_def using apos lh by (rule concat_upt_last)
  define X where "X = take ((a - 1) * ((stride + 1) * P)) D @ block (stride * P) (a - 1) xs"
  have DX: "D = X @ replicate P 0"
    using split by (simp add: X_def h_def)
  have "\<forall>r \<in> set (map h [0..<a]). length r = (stride + 1) * P" using lh by auto
  then have lD: "length D = a * ((stride + 1) * P)"
    using length_concat_uniform [of "map h [0..<a]" "(stride + 1) * P"] by (simp add: D_def)
  have "length X + P = a * (stride + 1) * P"
    using lD DX by (metis length_append length_replicate mult.assoc)
  moreover have "(a * (stride + 1) - 1) * P + P = a * (stride + 1) * P"
    using apos by (cases "a * (stride + 1)") (auto simp: algebra_simps)
  ultimately have lX: "length X = (a * (stride + 1) - 1) * P" by simp
  have "take ((a * (stride + 1) - 1) * P) D = X"
    using DX lX by (metis append_eq_conv_conj)
  then have "D = take ((a * (stride + 1) - 1) * P) D @ replicate P 0"
    using DX by simp
  moreover have "0 < a * (stride + 1)" using apos by simp
  ultimately show ?thesis
    using so do by (intro exI [of _ "a * (stride + 1)"]) (simp add: D_def rest_def P_def)
qed

lemma length_broadcast_shape:
  "broadcast_shape s1 s2 = Some s \<Longrightarrow> length s = length s1"
  by (induction s1 s2 arbitrary: s rule: broadcast_shape.induct)
    (auto split: option.splits)

lemma composite_rank:
  assumes "composite bg_color rgb alpha = Inr v"
  shows "shape v \<noteq> []"
proof -
  from assms obtain fg where
    fg: "broadcast_op (*) rgb (unsqueeze (length (shape alpha)) alpha) = Inr fg"
    and v: "broadcast_op (+) fg (unsqueeze (length (shape alpha))
              (map_tensor (\<lambda>a. bg_color * (1 - a)) alpha)) = Inr v"
    by (auto simp: composite_def split: sum.splits)
  define r where "r = max (length (shape fg)) (Suc (length (shape alpha)))"
  from v have "length (shape v) = length (pad_shape r (shape fg))"
    by (auto simp: broadcast_op_def Let_def unsqueeze_def map_tensor_def r_def
        split: option.splits dest: length_broadcast_shape)
  moreover have "length (pad_shape r (shape fg)) = r"
    by (rule length_pad_shape) (simp add: r_def)
  ultimately show ?thesis by (auto simp: r_def)
qed

lemma drop_last_row_shape:
  "shape t \<noteq> [] \<Longrightarrow> shape (drop_last_row t) = (hd (shape t) - 1) # tl (shape t)"
  by (cases "shape t") (simp_all add: drop_last_row_def)

text \<open>Without tiling, the last row of the stacked weights is the last ray of every level.\<close>

lemma stacked_alpha_last_row:
  assumes lv: "\<forall>l \<in> set levels. stack0 (map snd (fst l)) = Inr (snd (snd l))
                 \<and> (\<forall>v \<in> set (fst l). wf_tensor (snd v))"
    and st: "stack1 (map (\<lambda>l. snd (snd l)) levels) = Inr alpha"
  shows "0 < hd (shape alpha) \<and> 0 < shape alpha ! 1 \<and> length (shape alpha) \<ge> 2
         \<and> wf_tensor alpha
         \<and> data alpha = data (drop_last_row alpha)
                          @ concat (map (\<lambda>l. data (snd (last (fst l)))) levels)"
proof -
  from alpha_structure [OF lv st] obtain K rest where
    K: "0 < K" and ne: "levels \<noteq> []"
    and sa: "shape alpha = K # length levels # rest"
    and lvl: "\<forall>l \<in> set levels. length (fst l) = K
                \<and> (\<forall>v \<in> set (fst l). length (data (snd v)) = prod_list rest)"
    and da: "data alpha = concat (map (\<lambda>k. concat (map (\<lambda>l. data (snd (fst l ! k))) levels))
                                    [0..<K])"
    by blast
  define g where "g = (\<lambda>k. concat (map (\<lambda>l. data (snd (fst l ! k))) levels))"
  define M where "M = length levels * prod_list rest"
  have lg: "\<forall>k < K. length (g k) = M"
  proof (intro allI impI)
    fix k assume k: "k < K"
    have "\<forall>r \<in> set (map (\<lambda>l. data (snd (fst l ! k))) levels). length r = prod_list rest"
      using lvl k by auto
    then show "length (g k) = M"
      using length_concat_uniform [of "map (\<lambda>l. data (snd (fst l ! k))) levels" "prod_list rest"]
      by (simp add: g_def M_def)
  qed
  have dag: "data alpha = concat (map g [0..<K])" by (simp add: da g_def)
  have "\<forall>r \<in> set (map g [0..<K]). length r = M" using lg by auto
  then have len: "length (data alpha) = K * M"
    using length_concat_uniform [of "map g [0..<K]" M] by (simp add: dag)
  have wf: "wf_tensor alpha" using len by (simp add: wf_tensor_def sa M_def)
  have "g (K - 1) = concat (map (\<lambda>l. data (snd (last (fst l)))) levels)"
    unfolding g_def
  proof (rule arg_cong [where f = concat], rule map_cong [OF refl])
    fix l assume "l \<in> set levels"
    then have "length (fst l) = K" using lvl by blast
    then show "data (snd (fst l ! (K - 1))) = data (snd (last (fst l)))"
      using K by (cases "fst l" rule: rev_cases) (auto simp: nth_append)
  qed
  moreover have "data alpha = take ((K - 1) * M) (data alpha) @ g (K - 1)"
    unfolding dag using K lg by (rule concat_upt_last)
  moreover have "data (drop_last_row alpha) = take ((K - 1) * M) (data alpha)"
    by (simp add: drop_last_row_def sa M_def)
  ultimately have "data alpha = data (drop_last_row alpha)
                     @ concat (map (\<lambda>l. data (snd (last (fst l)))) levels)"
    by simp
  then show ?thesis using K ne wf by (simp add: sa)
qed

text \<open>
  Claim C9. Every call of \<^verbatim>\<open>visualize_rays\<close> that returns gives back the composited
  image and the weights without their final row along the first dimension, which is
  not empty before. When the tiling branch is taken, the row removed from the weights
  is the row of zeros that the branch appended last; when it is not taken
  (\<open>resolution\<close> does not exceed the first dimension of the stacked arrays), nothing was
  appended and the row removed holds the resampled weights of the last ray of every
  level.
\<close>

theorem visualize_rays_drops_final_row:
  assumes ret: "visualize_rays resample dists dist_range weights rgbs accumulate renormalize
                  resolution bg_color = Inr (vis, vis_alpha)"
  shows "\<exists>dist_vis levels vis_rgb alpha full_rgb full_alpha full_vis.
           linspace (fst dist_range) (snd dist_range) (resolution + 1) = Inr dist_vis
         \<and> process_levels resample accumulate dist_vis (zip dists (zip weights rgbs))
             = Inr levels
         \<and> stack1 (map (\<lambda>l. fst (snd l)) levels) = Inr vis_rgb
         \<and> stack1 (map (\<lambda>l. snd (snd l)) levels) = Inr alpha
         \<and> composite bg_color full_rgb full_alpha = Inr full_vis
         \<and> vis = drop_last_row full_vis \<and> vis_alpha = drop_last_row full_alpha
         \<and> shape vis = (hd (shape full_vis) - 1) # tl (shape full_vis)
         \<and> shape vis_alpha = (hd (shape full_alpha) - 1) # tl (shape full_alpha)
         \<and> 0 < hd (shape full_alpha)
         \<and> (if resolution > int (shape vis_rgb ! 0)
             then tile_branch resolution vis_rgb alpha = Inr (full_rgb, full_alpha)
                  \<and> data full_alpha
                      = data vis_alpha @ replicate (prod_list (tl (shape full_alpha))) 0
             else full_rgb = vis_rgb \<and> full_alpha = alpha
                  \<and> data full_alpha
                      = data vis_alpha @ concat (map (\<lambda>l. data (snd (last (fst l)))) levels))"
proof -
  from ret obtain dist_vis where
    dv: "linspace (fst dist_range) (snd dist_range) (resolution + 1) = Inr dist_vis"
    by (auto simp: visualize_rays_def split: if_splits sum.splits)
  from ret dv obtain levels where
    lv: "process_levels resample accumulate dist_vis (zip dists (zip weights rgbs)) = Inr levels"
    by (auto simp: visualize_rays_def split: if_splits sum.splits)
  from ret dv lv obtain vis_rgb where
    rgb: "stack1 (map (\<lambda>l. fst (snd l)) levels) = Inr vis_rgb"
    by (auto simp: visualize_rays_def split: if_splits sum.splits)
  from ret dv lv rgb obtain alpha where
    al: "stack1 (map (\<lambda>l. snd (snd l)) levels) = Inr alpha"
    by (auto simp: visualize_rays_def split: if_splits sum.splits)
  from ret dv lv rgb al have rn: "renormalize_alpha renormalize alpha = Inr alpha"
    by (auto simp: visualize_rays_def renormalize_alpha_def split: if_splits sum.splits)
  from ret dv lv rgb al rn obtain full_rgb full_alpha where
    br: "(if resolution > int (shape vis_rgb ! 0) then tile_branch resolution vis_rgb alpha
         else Inr (vis_rgb, alpha)) = Inr (full_rgb, full_alpha)"
    by (simp add: visualize_rays_def split: if_splits sum.splits prod.splits)
  from ret dv lv rgb al rn br obtain full_vis where
    cp: "composite bg_color full_rgb full_alpha = Inr full_vis"
    and vis: "vis = drop_last_row full_vis" and va: "vis_alpha = drop_last_row full_alpha"
    by (simp add: visualize_rays_def split: if_splits sum.splits)
  have lvf: "\<forall>l \<in> set levels. stack0 (map snd (fst l)) = Inr (snd (snd l))
               \<and> (\<forall>v \<in> set (fst l). wf_tensor (snd v))"
    using process_levels_Inr [OF lv] by blast
  note st = stacked_alpha_last_row [OF lvf al]
  have sv: "shape vis = (hd (shape full_vis) - 1) # tl (shape full_vis)"
    using composite_rank [OF cp] by (simp add: vis drop_last_row_shape)
  show ?thesis
  proof (cases "resolution > int (shape vis_rgb ! 0)")
    case False
    then have eq: "full_rgb = vis_rgb" "full_alpha = alpha" using br by simp_all
    have "shape alpha \<noteq> []" using st by auto
    then have "shape vis_alpha = (hd (shape full_alpha) - 1) # tl (shape full_alpha)"
      by (simp add: va eq drop_last_row_shape)
    then show ?thesis
      using dv lv rgb al cp vis va sv st False eq by auto
  next
    case True
    then have tb: "tile_branch resolution vis_rgb alpha = Inr (full_rgb, full_alpha)"
      using br by simp
    define rep where
      "rep = nat (resolution div (int (shape vis_rgb ! 0 * shape vis_rgb ! 1) + 1))"
    from tb have tp: "tile_pad [1, 1, rep] (rep * shape vis_rgb ! 1) alpha = Inr full_alpha"
      by (auto simp: tile_branch_def Let_def rep_def split: sum.splits)
    obtain K L rest where sa: "shape alpha = K # L # rest"
      using st by (cases "shape alpha" rule: list.exhaust;
          cases "tl (shape alpha)" rule: list.exhaust) auto
    have K: "0 < K" and L: "0 < L" using st sa by simp_all
    have "0 < rep * shape vis_rgb ! 1 \<Longrightarrow> 0 < prod_list [1, 1, rep]" by simp
    from tile_pad_Inr [OF tp _ sa K L this] st obtain n where
      n: "0 < n" and sf: "shape full_alpha = n # drop 2 (shape alpha)"
      and df: "data full_alpha
                 = take ((n - 1) * prod_list (drop 2 (shape alpha))) (data full_alpha)
                   @ replicate (prod_list (drop 2 (shape alpha))) 0"
      by blast
    have "data vis_alpha = take ((n - 1) * prod_list (drop 2 (shape alpha))) (data full_alpha)"
      by (simp add: va drop_last_row_def sf)
    then have "data full_alpha
                 = data vis_alpha @ replicate (prod_list (tl (shape full_alpha))) 0"
      using df by (simp add: sf)
    moreover have "shape vis_alpha = (hd (shape full_alpha) - 1) # tl (shape full_alpha)"
      by (simp add: va sf drop_last_row_shape)
    ultimately show ?thesis
      using dv lv rgb al cp vis va sv n sf True tb by auto
  qed
qed

text \<open>
  One level with two rays and \<open>resolution = 2\<close>, so that the tiling branch is not taken:
  the second ray is missing from the result. The resampler spreads the first sample of
  a ray over all bins.
\<close>

theorem visualize_rays_drops_final_row_witness:
  "visualize_rays
     (\<lambda>t tp vp. Inr \<lparr>shape = butlast (shape vp) @ [length t - 1],
                      data = concat (map (\<lambda>i. replicate (length t - 1)
                                               (hd (block (last (shape vp)) i (data vp))))
                                         [0..<prod_list (butlast (shape vp))])\<rparr>)
     [\<lparr>shape = [2, 2], data = [0, 1, 0, 1]\<rparr>] (0, 1)
     [\<lparr>shape = [2, 1], data = [1, 1 / 2]\<rparr>]
     [\<lparr>shape = [2, 1, 3], data = [1, 0, 0, 0, 1, 0]\<rparr>]
     False False 2 default_bg_color
   = Inr (\<lparr>shape = [1, 1, 2, 3], data = [1, 0, 0, 1, 0, 0]\<rparr>,
          \<lparr>shape = [1, 1, 2], data = [1, 1]\<rparr>)
   \<and> (\<exists>full_vis full_alpha.
         \<lparr>shape = [1, 1, 2, 3], data = [1, 0, 0, 1, 0, 0]\<rparr> = drop_last_row full_vis
       \<and> \<lparr>shape = [1, 1, 2], data = [1, 1]\<rparr> = drop_last_row full_alpha
       \<and> 0 < hd (shape full_alpha)
       \<and> shape \<lparr>shape = [1, 1, 2], data = [1, 1]\<rparr>
           = (hd (shape full_alpha) - 1) # tl (shape full_alpha))"
proof -
  have ret: "visualize_rays
     (\<lambda>t tp vp. Inr \<lparr>shape = butlast (shape vp) @ [length t - 1],
                      data = concat (map (\<lambda>i. replicate (length t - 1)
                                               (hd (block (last (shape vp)) i (data vp))))
                                         [0..<prod_list (butlast (shape vp))])\<rparr>)
     [\<lparr>shape = [2, 2], data = [0, 1, 0, 1]\<rparr>] (0, 1)
     [\<lparr>shape = [2, 1], data = [1, 1 / 2]\<rparr>]
     [\<lparr>shape = [2, 1, 3], data = [1, 0, 0, 0, 1, 0]\<rparr>]
     False False 2 default_bg_color
   = Inr (\<lparr>shape = [1, 1, 2, 3], data = [1, 0, 0, 1, 0, 0]\<rparr>,
          \<lparr>shape = [1, 1, 2], data = [1, 1]\<rparr>)"
    by code_simp
  from visualize_rays_drops_final_row [OF ret] obtain full_vis full_alpha where
    "\<lparr>shape = [1, 1, 2, 3], data = [1, 0, 0, 1, 0, 0]\<rparr> = drop_last_row full_vis"
    "\<lparr>shape = [1, 1, 2], data = [1, 1]\<rparr> = drop_last_row full_alpha"
    "0 < hd (shape full_alpha)"
    "shape \<lparr>shape = [1, 1, 2], data = [1, 1]\<rparr>
       = (hd (shape full_alpha) - 1) # tl (shape full_alpha)"
    by blast
  then show ?thesis using ret by blast
qed

end
